theory Spec2Isabelle
  imports Complex_Main
begin

section \<open>Day states and JavaScript numbers\<close>

text \<open>
  The table \<open>STATES\<close> of \<open>schedule.js\<close>: the six labels a unit can carry on a day
  (\<open>"-"\<close>, \<open>"S"\<close>, \<open>"I"\<close>, \<open>"P"\<close>, \<open>"B"\<close>, \<open>"D"\<close>).
\<close>

datatype DayState = STATES_EMPTY | STATES_S | STATES_I | STATES_P | STATES_B | STATES_D

text \<open>
  A value handed to \<open>buildSchedule\<close>. \<open>Number.isFinite\<close> is true exactly on finite
  numbers; on \<open>NaN\<close>, on both infinities and on every value that is not a number it is
  false, and \<open>clampInt\<close> looks at nothing else of such a value.
\<close>

datatype jsnum = Finite real | NonFinite

text \<open>
  \<open>function clampInt(n, min, max)\<close>:
  \<open>x = Number.isFinite(n) ? Math.floor(n) : min; return Math.max(min, Math.min(max, x))\<close>.
\<close>

definition clampInt :: "jsnum \<Rightarrow> int \<Rightarrow> int \<Rightarrow> int" where
  "clampInt n mn mx =
     (let x = (case n of Finite r \<Rightarrow> \<lfloor>r\<rfloor> | NonFinite \<Rightarrow> mn)
      in max mn (min mx x))"

text \<open>
  The remainder operator \<open>%\<close> of JavaScript on integers: the result takes the sign of
  the dividend (truncated division). The source guards the divisor \<open>0\<close> before it
  divides.
\<close>

definition js_rem :: "int \<Rightarrow> int \<Rightarrow> int" where
  "js_rem a b = sgn a * (\<bar>a\<bar> mod \<bar>b\<bar>)"

section \<open>Sums and differences of doubles\<close>

text \<open>
  Every number of the program is an IEEE 754 double. The days and lengths it computes
  with are integers, and a sum or difference of two integers is the exact result rounded
  to the nearest double, ties to the even significand. \<open>bitlen n\<close> is the number of binary
  digits of \<open>n\<close>.
\<close>

function bitlen :: "int \<Rightarrow> nat" where
  "bitlen n = (if n \<le> 0 then 0 else Suc (bitlen (n div 2)))"
  by pat_completeness auto
termination
  by (relation "measure nat") auto

text \<open>
  The double nearest to the integer \<open>x\<close>. Up to \<open>2\<^sup>5\<^sup>3 = 9007199254740992\<close> in
  magnitude every integer is a double. Beyond it the 53 leading binary digits \<open>q\<close> are
  kept and the rest \<open>r\<close> is rounded, a tie going to the even \<open>q\<close>. The exponent range is
  left out: the result is the double of the code as long as it stays below \<open>2\<^sup>1\<^sup>0\<^sup>2\<^sup>4\<close>,
  where the code has \<open>Infinity\<close>.
\<close>

definition round_double :: "int \<Rightarrow> int" where
  "round_double x =
     (if \<bar>x\<bar> \<le> 9007199254740992 then x
      else
        let e = bitlen \<bar>x\<bar> - 53;
            q = \<bar>x\<bar> div 2 ^ e;
            r = \<bar>x\<bar> mod 2 ^ e;
            half = 2 ^ (e - 1);
            q' = (if r < half then q
                  else if half < r then q + 1
                  else if even q then q else q + 1)
        in sgn x * (q' * 2 ^ e))"

text \<open>The operators \<open>+\<close> and \<open>-\<close> (and \<open>+=\<close>) on integer-valued doubles.\<close>

definition js_add :: "int \<Rightarrow> int \<Rightarrow> int" where
  "js_add a b = round_double (a + b)"

definition js_sub :: "int \<Rightarrow> int \<Rightarrow> int" where
  "js_sub a b = round_double (a - b)"

section \<open>The state generator\<close>

text \<open>
  \<open>getSupervisorStateAtDay(t, startDay, W, R, I)\<close> of \<open>src/lib/schedule.js\<close>, with its
  running cursor written as nested \<open>let\<close>s, one per \<open>cursor += ...\<close>. The arguments are
  integers that are doubles; every \<open>+\<close> and \<open>-\<close> of the source is \<open>js_add\<close> or \<open>js_sub\<close>,
  and \<open>%\<close> and the comparisons are exact, as they are on doubles.
\<close>

definition getSupervisorStateAtDay :: "int \<Rightarrow> int \<Rightarrow> int \<Rightarrow> int \<Rightarrow> int \<Rightarrow> DayState" where
  "getSupervisorStateAtDay t startDay W R I =
     (if t < startDay then STATES_EMPTY
      else
        let realRest = max 0 (js_sub R 2);
            firstP = max 0 (js_sub W I);
            cursor = startDay
        in if t = cursor then STATES_S
        else let cursor = js_add cursor 1
        in if t \<ge> cursor \<and> t < js_add cursor I then STATES_I
        else let cursor = js_add cursor I
        in if t \<ge> cursor \<and> t < js_add cursor firstP then STATES_P
        else let cursor = js_add cursor firstP
        in if t = cursor then STATES_B
        else let cursor = js_add cursor 1
        in if t \<ge> cursor \<and> t < js_add cursor realRest then STATES_D
        else let cursor = js_add cursor realRest
        in if t = cursor then STATES_S
        else let cursor = js_add cursor 1;
                 cycleLen = js_add (js_add (js_add W 1) realRest) 1
        in if cycleLen = 0 then STATES_EMPTY
        else let k = js_sub t cursor;
                 pos = js_rem (js_add (js_rem k cycleLen) cycleLen) cycleLen
        in if pos < W then STATES_P
           else if pos = W then STATES_B
           else if pos > W \<and> pos < js_add (js_add W 1) realRest then STATES_D
           else STATES_S)"

text \<open>
  The other \<open>getSupervisorStateAtDay\<close> of the repository (the second \<open>schedule.js\<close>):
  \<open>STANDUP\<close> and \<open>WINDDOWN\<close> lie inside the \<open>W\<close> block and all \<open>R\<close> days are rest.
  It clamps its own arguments: \<open>W = Math.max(2, W)\<close>, \<open>R = Math.max(0, R)\<close>,
  \<open>I = clampInt(I, 1, 5)\<close>.
\<close>

definition getSupervisorStateAtDay_alt :: "int \<Rightarrow> int \<Rightarrow> int \<Rightarrow> int \<Rightarrow> int \<Rightarrow> DayState" where
  "getSupervisorStateAtDay_alt t startDay W0 R0 I0 =
     (if t < startDay then STATES_EMPTY
      else
        let W = max 2 W0;
            R = max 0 R0;
            I = clampInt (Finite (of_int I0)) 1 5;
            firstCycleLen = js_add W R;
            firstPos = js_sub t startDay
        in if firstPos < firstCycleLen then
             (if firstPos = 0 then STATES_S
              else if firstPos = js_sub W 1 then STATES_B
              else if firstPos \<ge> W then STATES_D
              else if firstPos \<ge> 1 \<and> firstPos \<le> I then STATES_I
              else STATES_P)
           else
             let afterFirst = js_sub firstPos firstCycleLen;
                 cycleLen = js_add W R;
                 pos = js_rem afterFirst cycleLen
             in if pos = 0 then STATES_S
                else if pos = js_sub W 1 then STATES_B
                else if pos \<ge> W then STATES_D
                else STATES_P)"

section \<open>Scoring a candidate\<close>

text \<open>
  The record returned by \<open>scoreOffsets\<close>. \<open>firstPDay\<close> is the result of
  \<open>Array.prototype.findIndex\<close>: \<open>-1\<close> when no entry matches.
\<close>

record diagnostics =
  firstPDay :: int
  threePDays :: int
  notTwoAfterPDays :: int
  score :: int
  isPerfect :: bool

text \<open>\<open>xs.findIndex(p)\<close>, counting from the index \<open>i\<close> of the head of \<open>xs\<close>.\<close>

fun findIndex_from :: "('a \<Rightarrow> bool) \<Rightarrow> 'a list \<Rightarrow> int \<Rightarrow> int" where
  "findIndex_from p [] i = - 1"
| "findIndex_from p (x # xs) i = (if p x then i else findIndex_from p xs (i + 1))"

definition findIndex :: "('a \<Rightarrow> bool) \<Rightarrow> 'a list \<Rightarrow> int" where
  "findIndex p xs = findIndex_from p xs 0"

text \<open>
  The body of the inner loop \<open>for (let s = 0; s < 3; s++)\<close> of \<open>scoreOffsets\<close> on day
  \<open>d\<close>: \<open>if (st === STATES.P) pCount[d] += 1\<close>. The local array \<open>states\<close> of
  \<open>scoreOffsets\<close> is written and never read, so the model leaves it out.
\<close>

definition score_unit :: "int \<Rightarrow> int \<Rightarrow> int \<Rightarrow> int list \<Rightarrow> nat \<Rightarrow> nat \<Rightarrow> int list \<Rightarrow> int list" where
  "score_unit W R I starts d s pc =
     (let st = getSupervisorStateAtDay (int d) (starts ! s) W R I
      in if st = STATES_P then pc[d := pc ! d + 1] else pc)"

definition score_day :: "int \<Rightarrow> int \<Rightarrow> int \<Rightarrow> int list \<Rightarrow> nat \<Rightarrow> int list \<Rightarrow> int list" where
  "score_day W R I starts d pc = fold (score_unit W R I starts d) [0..<3] pc"

text \<open>The first loop of \<open>scoreOffsets\<close>, over \<open>d = 0, ..., horizon - 1\<close>, from \<open>Array(horizon).fill(0)\<close>.\<close>

definition score_pCount :: "int \<Rightarrow> int \<Rightarrow> int \<Rightarrow> nat \<Rightarrow> int list \<Rightarrow> int list" where
  "score_pCount W R I horizon starts =
     fold (score_day W R I starts) [0..<horizon] (replicate horizon 0)"

text \<open>
  The body of the second loop: the pair is \<open>(threeP, notTwoAfterP)\<close>.
\<close>

definition tally_day :: "int list \<Rightarrow> int \<Rightarrow> nat \<Rightarrow> int \<times> int \<Rightarrow> int \<times> int" where
  "tally_day pc fpd d acc =
     (let threeP = (if pc ! d = 3 then fst acc + 1 else fst acc);
          notTwoAfterP = (if fpd \<noteq> - 1 \<and> int d \<ge> fpd \<and> pc ! d \<noteq> 2 then snd acc + 1 else snd acc)
      in (threeP, notTwoAfterP))"

text \<open>
  \<open>scoreOffsets({ W, R, I, horizon, starts })\<close>. The horizon is an array length, a
  natural number; \<open>buildSchedule\<close> passes one that is at least 45.
\<close>

definition scoreOffsets :: "int \<Rightarrow> int \<Rightarrow> int \<Rightarrow> nat \<Rightarrow> int list \<Rightarrow> diagnostics" where
  "scoreOffsets W R I horizon starts =
     (let pc = score_pCount W R I horizon starts;
          fpd = findIndex (\<lambda>x. x > 0) pc;
          acc = fold (tally_day pc fpd) [0..<horizon] (0, 0);
          threeP = fst acc;
          notTwoAfterP = snd acc;
          sc = threeP * 1000 + notTwoAfterP * 10
               + \<bar>starts ! 1 - starts ! 0\<bar> + \<bar>starts ! 2 - starts ! 0\<bar>
      in \<lparr> firstPDay = fpd, threePDays = threeP, notTwoAfterPDays = notTwoAfterP,
           score = sc, isPerfect = (threeP = 0 \<and> notTwoAfterP = 0) \<rparr>)"

section \<open>The offset solver\<close>

record offsets =
  startS2 :: int
  startS3 :: int
  diagnostics :: diagnostics

text \<open>
  The inner loop \<open>for (const startS3 of candidatesS3)\<close> of \<open>findBestOffsets\<close>. \<open>Inl\<close>
  is the early \<open>return\<close> on a perfect candidate; \<open>Inr\<close> is the value of \<open>best\<close> (\<open>None\<close>
  for \<open>null\<close>) when the loop runs to its end.
\<close>

fun inner_loop ::
  "int \<Rightarrow> int \<Rightarrow> int \<Rightarrow> nat \<Rightarrow> int \<Rightarrow> int \<Rightarrow> int list \<Rightarrow> offsets option \<Rightarrow> offsets + offsets option" where
  "inner_loop W R I horizon startS1 o2 [] best = Inr best"
| "inner_loop W R I horizon startS1 o2 (o3 # rest) best =
     (let diag = scoreOffsets W R I horizon [startS1, o2, o3]
      in if isPerfect diag then Inl \<lparr> startS2 = o2, startS3 = o3, diagnostics = diag \<rparr>
         else inner_loop W R I horizon startS1 o2 rest
                (case best of
                   None \<Rightarrow> Some \<lparr> startS2 = o2, startS3 = o3, diagnostics = diag \<rparr>
                 | Some b \<Rightarrow>
                     if score diag < score (diagnostics b)
                     then Some \<lparr> startS2 = o2, startS3 = o3, diagnostics = diag \<rparr>
                     else Some b))"

text \<open>The outer loop \<open>for (const startS2 of candidatesS2)\<close>.\<close>

fun outer_loop ::
  "int \<Rightarrow> int \<Rightarrow> int \<Rightarrow> nat \<Rightarrow> int \<Rightarrow> int list \<Rightarrow> int list \<Rightarrow> offsets option \<Rightarrow> offsets + offsets option" where
  "outer_loop W R I horizon startS1 [] cs3 best = Inr best"
| "outer_loop W R I horizon startS1 (o2 # rest) cs3 best =
     (case inner_loop W R I horizon startS1 o2 cs3 best of
        Inl r \<Rightarrow> Inl r
      | Inr best' \<Rightarrow> outer_loop W R I horizon startS1 rest cs3 best')"

definition maxOffset :: "int \<Rightarrow> int \<Rightarrow> int \<Rightarrow> nat \<Rightarrow> int" where
  "maxOffset W R I horizon = min (int horizon - 1) ((W + R + I) * 3 + 20)"

text \<open>
  \<open>candidatesS2\<close> and \<open>candidatesS3\<close>: both are \<open>0, 1, ..., maxOffset\<close>, filled by
  \<open>for (let d = 0; d <= maxOffset; d++)\<close>.
\<close>

definition candidates :: "int \<Rightarrow> int \<Rightarrow> int \<Rightarrow> nat \<Rightarrow> int list" where
  "candidates W R I horizon = [0..maxOffset W R I horizon]"

text \<open>The two nested loops of \<open>findBestOffsets\<close>, from \<open>best = null\<close>.\<close>

definition search :: "int \<Rightarrow> int \<Rightarrow> int \<Rightarrow> nat \<Rightarrow> int \<Rightarrow> offsets + offsets option" where
  "search W R I horizon startS1 =
     outer_loop W R I horizon startS1 (candidates W R I horizon) (candidates W R I horizon) None"

text \<open>The right-hand side of \<open>best ?? { ... }\<close> in the last line of \<open>findBestOffsets\<close>.\<close>

definition fallback :: "int \<Rightarrow> int \<Rightarrow> int \<Rightarrow> nat \<Rightarrow> int \<Rightarrow> offsets" where
  "fallback W R I horizon startS1 =
     \<lparr> startS2 = 0, startS3 = W + 1,
       diagnostics = scoreOffsets W R I horizon [startS1, 0, W + 1] \<rparr>"

definition findBestOffsets :: "int \<Rightarrow> int \<Rightarrow> int \<Rightarrow> nat \<Rightarrow> int \<Rightarrow> offsets" where
  "findBestOffsets W R I horizon startS1 =
     (case search W R I horizon startS1 of
        Inl r \<Rightarrow> r
      | Inr (Some b) \<Rightarrow> b
      | Inr None \<Rightarrow> fallback W R I horizon startS1)"

section \<open>The schedule builder\<close>

text \<open>The argument of \<open>buildSchedule\<close>, as the caller passes it, and its clamped form.\<close>

record raw_params =
  raw_W :: jsnum
  raw_R :: jsnum
  raw_I :: jsnum
  raw_totalPerforationDays :: jsnum

record params =
  param_W :: int
  param_R :: int
  param_I :: int
  param_totalPerforationDays :: int

text \<open>The object returned by \<open>buildSchedule\<close>.\<close>

record schedule =
  params :: params
  starts :: "int list"
  days :: int
  names :: "string list"
  states :: "DayState list list"
  pCount :: "int list"
  diagnostics :: diagnostics

text \<open>
  The body of the inner loop of \<open>buildSchedule\<close> for unit \<open>s\<close> on day \<open>d\<close>:
  \<open>states[s][d] = st; if (st === STATES.P) pCount[d] += 1\<close>.
\<close>

definition build_unit ::
  "int \<Rightarrow> int \<Rightarrow> int \<Rightarrow> int list \<Rightarrow> nat \<Rightarrow> nat \<Rightarrow> DayState list list \<times> int list \<Rightarrow> DayState list list \<times> int list" where
  "build_unit W R I sts d s g =
     (let st = getSupervisorStateAtDay (int d) (sts ! s) W R I;
          grid = (fst g)[s := (fst g ! s)[d := st]]
      in (grid, if st = STATES_P then (snd g)[d := snd g ! d + 1] else snd g))"

definition build_day ::
  "int \<Rightarrow> int \<Rightarrow> int \<Rightarrow> int list \<Rightarrow> nat \<Rightarrow> DayState list list \<times> int list \<Rightarrow> DayState list list \<times> int list" where
  "build_day W R I sts d g = fold (build_unit W R I sts d) [0..<3] g"

text \<open>
  The matrix loop, from \<open>names.map(() => Array(horizon).fill(STATES.EMPTY))\<close> and
  \<open>Array(horizon).fill(0)\<close>.
\<close>

definition build_grid ::
  "int \<Rightarrow> int \<Rightarrow> int \<Rightarrow> nat \<Rightarrow> int list \<Rightarrow> string list \<Rightarrow> DayState list list \<times> int list" where
  "build_grid W R I horizon sts nms =
     fold (build_day W R I sts) [0..<horizon]
       (map (\<lambda>_. replicate horizon STATES_EMPTY) nms, replicate horizon 0)"

text \<open>
  The trimming loop over the days \<open>ds\<close> still to visit: it returns \<open>endDay\<close>. The
  \<open>break\<close> is the branch that returns \<open>d\<close>.
\<close>

fun trim_loop :: "int list \<Rightarrow> int \<Rightarrow> nat list \<Rightarrow> int \<Rightarrow> int \<Rightarrow> int" where
  "trim_loop pc T [] daysWithTwo endDay = endDay"
| "trim_loop pc T (d # ds) daysWithTwo endDay =
     (let daysWithTwo' = (if pc ! d = 2 then daysWithTwo + 1 else daysWithTwo)
      in if daysWithTwo' \<ge> T then int d
         else trim_loop pc T ds daysWithTwo' endDay)"

definition buildSchedule :: "raw_params \<Rightarrow> schedule" where
  "buildSchedule p =
     (let W = clampInt (raw_W p) 1 60;
          R = clampInt (raw_R p) 2 60;
          I = clampInt (raw_I p) 1 5;
          totalPerforationDays = clampInt (raw_totalPerforationDays p) 1 5000;
          horizon = totalPerforationDays + (W + R + I) * 6 + 20;
          startS1 = 0;
          best = findBestOffsets W R I (nat horizon) startS1;
          sts = [startS1, startS2 best, startS3 best];
          nms = [''S1'', ''S2'', ''S3''];
          g = build_grid W R I (nat horizon) sts nms;
          endDay = trim_loop (snd g) totalPerforationDays [0..<nat horizon] 0 (horizon - 1);
          n = endDay + 1
      in \<lparr> params = \<lparr> param_W = W, param_R = R, param_I = I,
                       param_totalPerforationDays = totalPerforationDays \<rparr>,
           starts = sts,
           days = n,
           names = nms,
           states = map (take (nat n)) (fst g),
           pCount = take (nat n) (snd g),
           diagnostics = offsets.diagnostics best \<rparr>)"

section \<open>The validator\<close>

text \<open>
  An alert of \<open>validateSchedule\<close>. The source pushes a sentence built from a template;
  the model keeps the template's kind and the values put into it:
  \<open>ThreeP d\<close>, \<open>OneP d\<close> and \<open>ZeroP d\<close> for the three count messages of day \<open>d\<close>, and
  \<open>InvalidPattern name d' d key\<close> for the pattern message with \<open>names[s]\<close>, \<open>d - 1\<close>,
  \<open>d\<close> and \<open>key\<close>.
\<close>

datatype alert = ThreeP nat | OneP nat | ZeroP nat | InvalidPattern string nat nat string

text \<open>The string of a state, as in \<open>STATES\<close>.\<close>

fun label :: "DayState \<Rightarrow> string" where
  "label STATES_EMPTY = ''-''"
| "label STATES_S = ''S''"
| "label STATES_I = ''I''"
| "label STATES_P = ''P''"
| "label STATES_B = ''B''"
| "label STATES_D = ''D''"

definition invalidPairs :: "string list" where
  "invalidPairs = [''S-S'', ''S-B'', ''B-S'', ''I-S'', ''D-I'']"

text \<open>\<open>names[s]\<close> inside a template: an index out of range reads \<open>undefined\<close>.\<close>

definition name_at :: "string list \<Rightarrow> nat \<Rightarrow> string" where
  "name_at nms s = (if s < length nms then nms ! s else ''undefined'')"

text \<open>The first loop: one alert for every day with three units producing.\<close>

definition three_step :: "int list \<Rightarrow> nat \<Rightarrow> alert list \<Rightarrow> alert list" where
  "three_step pc d alerts = (if pc ! d = 3 then alerts @ [ThreeP d] else alerts)"

text \<open>The second loop, from \<open>firstPDay\<close> on: the two \<open>if\<close>s of its body in order.\<close>

definition under_step :: "int list \<Rightarrow> nat \<Rightarrow> alert list \<Rightarrow> alert list" where
  "under_step pc d alerts =
     (let alerts1 = (if pc ! d = 1 then alerts @ [OneP d] else alerts)
      in if pc ! d = 0 then alerts1 @ [ZeroP d] else alerts1)"

text \<open>The body of the pattern loop for unit \<open>s\<close> and day \<open>d\<close>, \<open>d \<ge> 1\<close>.\<close>

definition pattern_step :: "string list \<Rightarrow> DayState list list \<Rightarrow> nat \<Rightarrow> nat \<Rightarrow> alert list \<Rightarrow> alert list" where
  "pattern_step nms grid s d alerts =
     (let a = grid ! s ! (d - 1);
          b = grid ! s ! d
      in if a = STATES_EMPTY \<or> b = STATES_EMPTY then alerts
         else let key = label a @ ''-'' @ label b
              in if key \<in> set invalidPairs
                 then alerts @ [InvalidPattern (name_at nms s) (d - 1) d key]
                 else alerts)"

definition pattern_row :: "string list \<Rightarrow> DayState list list \<Rightarrow> nat \<Rightarrow> alert list \<Rightarrow> alert list" where
  "pattern_row nms grid s alerts =
     fold (pattern_step nms grid s) [1..<length (grid ! s)] alerts"

text \<open>\<open>validateSchedule({ names, states, pCount })\<close>.\<close>

definition validateSchedule :: "schedule \<Rightarrow> alert list" where
  "validateSchedule sch =
     (let pc = pCount sch;
          fpd = findIndex (\<lambda>x. x = 2) pc;
          alerts1 = fold (three_step pc) [0..<length pc] [];
          alerts2 = (if fpd \<noteq> - 1 then fold (under_step pc) [nat fpd..<length pc] alerts1
                     else alerts1)
      in fold (pattern_row (names sch) (states sch)) [0..<length (states sch)] alerts2)"

section \<open>Auxiliary definitions\<close>

text \<open>
  The last four branches of \<open>getSupervisorStateAtDay\<close>, as a function of the position
  in the repeating cycle and of \<open>realRest\<close>.
\<close>

definition cycle_state :: "int \<Rightarrow> int \<Rightarrow> int \<Rightarrow> DayState" where
  "cycle_state W rr pos =
     (if pos < W then STATES_P
      else if pos = W then STATES_B
      else if pos > W \<and> pos < W + 1 + rr then STATES_D
      else STATES_S)"

text \<open>
  The generator with every sum and difference exact, on unbounded integers. It serves the
  proofs only: it is what \<open>getSupervisorStateAtDay\<close> computes as long as no number exceeds
  \<open>2\<^sup>5\<^sup>3\<close> in magnitude (\<open>getSupervisorStateAtDay_exact_eq\<close> below).
\<close>

definition getSupervisorStateAtDay_exact :: "int \<Rightarrow> int \<Rightarrow> int \<Rightarrow> int \<Rightarrow> int \<Rightarrow> DayState" where
  "getSupervisorStateAtDay_exact t startDay W R I =
     (if t < startDay then STATES_EMPTY
      else
        let realRest = max 0 (R - 2);
            firstP = max 0 (W - I);
            cursor = startDay
        in if t = cursor then STATES_S
        else let cursor = cursor + 1
        in if t \<ge> cursor \<and> t < cursor + I then STATES_I
        else let cursor = cursor + I
        in if t \<ge> cursor \<and> t < cursor + firstP then STATES_P
        else let cursor = cursor + firstP
        in if t = cursor then STATES_B
        else let cursor = cursor + 1
        in if t \<ge> cursor \<and> t < cursor + realRest then STATES_D
        else let cursor = cursor + realRest
        in if t = cursor then STATES_S
        else let cursor = cursor + 1;
                 cycleLen = W + 1 + realRest + 1
        in if cycleLen = 0 then STATES_EMPTY
        else let k = t - cursor;
                 pos = js_rem (js_rem k cycleLen + cycleLen) cycleLen
        in if pos < W then STATES_P
           else if pos = W then STATES_B
           else if pos > W \<and> pos < W + 1 + realRest then STATES_D
           else STATES_S)"

text \<open>
  The generator as a function of the day \<open>x = t - startDay\<close> relative to the start, with
  \<open>firstP\<close> and \<open>realRest\<close> as arguments and every cursor value written out. It is shown
  equal to \<open>getSupervisorStateAtDay_exact\<close> below (\<open>getSupervisorStateAtDay_exact_segments\<close>)
  and serves the proofs only.
\<close>

definition segments :: "int \<Rightarrow> int \<Rightarrow> int \<Rightarrow> int \<Rightarrow> int \<Rightarrow> DayState" where
  "segments x W I fp rr =
     (if x < 0 then STATES_EMPTY
      else if x = 0 then STATES_S
      else if 1 \<le> x \<and> x < 1 + I then STATES_I
      else if 1 + I \<le> x \<and> x < 1 + I + fp then STATES_P
      else if x = 1 + I + fp then STATES_B
      else if 1 + I + fp + 1 \<le> x \<and> x < 1 + I + fp + 1 + rr then STATES_D
      else if x = 1 + I + fp + 1 + rr then STATES_S
      else if W + 1 + rr + 1 = 0 then STATES_EMPTY
      else cycle_state W rr
             (js_rem (js_rem (x - (1 + I + fp + 1 + rr + 1)) (W + 1 + rr + 1)
                       + (W + 1 + rr + 1)) (W + 1 + rr + 1)))"

text \<open>
  The object \<open>{ startS2, startS3, diagnostics: diag }\<close> that \<open>findBestOffsets\<close> builds for
  the candidate pair \<open>c\<close>.
\<close>

definition candidate :: "int \<Rightarrow> int \<Rightarrow> int \<Rightarrow> nat \<Rightarrow> int \<Rightarrow> int \<times> int \<Rightarrow> offsets" where
  "candidate W R I horizon startS1 c =
     \<lparr> startS2 = fst c, startS3 = snd c,
       diagnostics = scoreOffsets W R I horizon [startS1, fst c, snd c] \<rparr>"

text \<open>The update of \<open>best\<close> in the loop body: \<open>if (!best || diag.score < best.diagnostics.score)\<close>.\<close>

definition keep :: "offsets option \<Rightarrow> offsets \<Rightarrow> offsets option" where
  "keep best r =
     (case best of
        None \<Rightarrow> Some r
      | Some b \<Rightarrow> if score (offsets.diagnostics r) < score (offsets.diagnostics b) then Some r else Some b)"

text \<open>
  The two nested loops as one loop over the list of candidate pairs in the order they
  are visited; shown equal to \<open>outer_loop\<close> below (\<open>outer_loop_scan\<close>).
\<close>

fun scan :: "int \<Rightarrow> int \<Rightarrow> int \<Rightarrow> nat \<Rightarrow> int \<Rightarrow> (int \<times> int) list \<Rightarrow> offsets option \<Rightarrow> offsets + offsets option" where
  "scan W R I horizon startS1 [] best = Inr best"
| "scan W R I horizon startS1 (c # cs) best =
     (if isPerfect (offsets.diagnostics (candidate W R I horizon startS1 c))
      then Inl (candidate W R I horizon startS1 c)
      else scan W R I horizon startS1 cs (keep best (candidate W R I horizon startS1 c)))"

text \<open>The order in which the pairs are visited: \<open>offset2\<close> first, then \<open>offset3\<close>.\<close>

definition lex_less :: "int \<times> int \<Rightarrow> int \<times> int \<Rightarrow> bool" where
  "lex_less a b = (fst a < fst b \<or> (fst a = fst b \<and> snd a < snd b))"

text \<open>
  A schedule of three days: unit \<open>S1\<close> has the forbidden pair \<open>S-S\<close> on days \<open>0\<close>, \<open>1\<close> and
  the allowed pair \<open>S-I\<close> on days \<open>1\<close>, \<open>2\<close>; unit \<open>S2\<close> starts on day \<open>1\<close>.
\<close>

definition example_schedule :: schedule where
  "example_schedule =
     \<lparr> params = \<lparr> param_W = 1, param_R = 2, param_I = 1, param_totalPerforationDays = 1 \<rparr>,
       starts = [0, 1, 0],
       days = 3,
       names = [''S1'', ''S2'', ''S3''],
       states = [[STATES_S, STATES_S, STATES_I],
                 [STATES_EMPTY, STATES_S, STATES_I],
                 [STATES_S, STATES_I, STATES_B]],
       pCount = [0, 0, 0],
       diagnostics = \<lparr> firstPDay = - 1, threePDays = 0, notTwoAfterPDays = 0, score = 1,
                       isPerfect = True \<rparr> \<rparr>"

text \<open>
  The number of units (of the three) that are PRODUCING on day \<open>d\<close>, for the start days
  \<open>sts\<close>: what both matrix loops leave in \<open>pCount[d]\<close>.
\<close>

definition producing :: "int \<Rightarrow> int \<Rightarrow> int \<Rightarrow> int list \<Rightarrow> nat \<Rightarrow> int" where
  "producing W R I sts d =
     int (length (filter (\<lambda>s. getSupervisorStateAtDay (int d) (sts ! s) W R I = STATES_P) [0..<3]))"

text \<open>
  The running count of the trimming loop: the number of days among the first \<open>n\<close> with
  \<open>pCount[d] == 2\<close>.
\<close>

definition twos :: "int list \<Rightarrow> nat \<Rightarrow> int" where
  "twos pc n = int (length (filter (\<lambda>d. pc ! d = 2) [0..<n]))"

text \<open>
  The first day \<open>d\<close> below \<open>h\<close>, if any, at which the running count, day \<open>d\<close> included,
  reaches \<open>T\<close>. This follows the words of the specification, not the loop.
\<close>

definition first_reached :: "int list \<Rightarrow> int \<Rightarrow> nat \<Rightarrow> nat option" where
  "first_reached pc T h = find (\<lambda>d. T \<le> twos pc (Suc d)) [0..<h]"

section \<open>Properties of the state generator\<close>

lemma js_rem_nonneg: "0 \<le> k \<Longrightarrow> 0 < c \<Longrightarrow> js_rem k c = k mod c"
  by (cases "k = 0") (simp_all add: js_rem_def)

lemma js_pos_nonneg: "0 \<le> k \<Longrightarrow> 0 < c \<Longrightarrow> js_rem (js_rem k c + c) c = k mod c"
  by (simp add: js_rem_nonneg)

lemma js_rem_bound: "0 < c \<Longrightarrow> \<bar>js_rem k c\<bar> < c"
proof -
  assume c: "0 < c"
  have "\<bar>js_rem k c\<bar> = \<bar>k\<bar> mod c"
    using c by (cases "k = 0") (simp_all add: js_rem_def abs_mult abs_sgn_eq)
  also have "\<dots> < c" using c by simp
  finally show ?thesis .
qed

lemma round_double_exact: "\<bar>x\<bar> \<le> 9007199254740992 \<Longrightarrow> round_double x = x"
  by (simp add: round_double_def)

lemma js_add_exact: "\<bar>a + b\<bar> \<le> 9007199254740992 \<Longrightarrow> js_add a b = a + b"
  by (simp add: js_add_def round_double_exact)

lemma js_sub_exact: "\<bar>a - b\<bar> \<le> 9007199254740992 \<Longrightarrow> js_sub a b = a - b"
  by (simp add: js_sub_def round_double_exact)

text \<open>
  The first doubles beyond \<open>2\<^sup>5\<^sup>3\<close> are the even integers: an odd one is rounded to the
  neighbour with the even significand.
\<close>

lemma round_double_examples:
  "round_double 9007199254740993 = 9007199254740992"
  "round_double 9007199254740994 = 9007199254740994"
  "round_double 9007199254740995 = 9007199254740996"
  "round_double 9007199254740996 = 9007199254740996"
  "round_double 9007199254740998 = 9007199254740998"
  "round_double (- 9007199254740995) = - 9007199254740996"
  "round_double 18014398509481986 = 18014398509481984"
  "round_double 18014398509481990 = 18014398509481992"
  by code_simp+

text \<open>
  When no number the generator computes exceeds \<open>2\<^sup>5\<^sup>3\<close> in magnitude nothing is
  rounded.
\<close>

lemma getSupervisorStateAtDay_exact_eq:
  assumes "0 \<le> W" "W \<le> 60" "0 \<le> R" "R \<le> 60" "0 \<le> I" "I \<le> 60"
    and "- 9007199254740992 \<le> startDay"
    and "startDay + 3 + I + max 0 (W - I) + max 0 (R - 2) \<le> 9007199254740992"
    and "t - startDay \<le> 9007199254740992"
  shows "getSupervisorStateAtDay t startDay W R I = getSupervisorStateAtDay_exact t startDay W R I"
proof (cases "t < startDay")
  case True
  then show ?thesis
    by (simp add: getSupervisorStateAtDay_def getSupervisorStateAtDay_exact_def)
next
  case False
  let ?rr = "max 0 (R - 2)"
  let ?fp = "max 0 (W - I)"
  have rr: "0 \<le> ?rr" "?rr \<le> 60" and fp: "0 \<le> ?fp" "?fp \<le> 60"
    using assms(1-6) by simp_all
  note b = assms(7,8)
  have e1: "js_sub R 2 = R - 2" and e2: "js_sub W I = W - I"
    using assms(1-6) by (simp_all add: js_sub_exact)
  have c1: "js_add startDay 1 = startDay + 1"
    using b rr fp assms(5) by (intro js_add_exact) linarith
  have c2: "js_add (startDay + 1) I = startDay + 1 + I"
    using b rr fp assms(5) by (intro js_add_exact) linarith
  have c3: "js_add (startDay + 1 + I) ?fp = startDay + 1 + I + ?fp"
    using b rr fp assms(5) by (intro js_add_exact) linarith
  have c4: "js_add (startDay + 1 + I + ?fp) 1 = startDay + 1 + I + ?fp + 1"
    using b rr fp assms(5) by (intro js_add_exact) linarith
  have c5: "js_add (startDay + 1 + I + ?fp + 1) ?rr = startDay + 1 + I + ?fp + 1 + ?rr"
    using b rr fp assms(5) by (intro js_add_exact) linarith
  have c6: "js_add (startDay + 1 + I + ?fp + 1 + ?rr) 1 = startDay + 1 + I + ?fp + 1 + ?rr + 1"
    using b rr fp assms(5) by (intro js_add_exact) linarith
  have l1: "js_add W 1 = W + 1"
    using assms(1,2) by (intro js_add_exact) linarith
  have l2: "js_add (W + 1) ?rr = W + 1 + ?rr"
    using assms(1,2) rr by (intro js_add_exact) linarith
  have l3: "js_add (W + 1 + ?rr) 1 = W + 1 + ?rr + 1"
    using assms(1,2) rr by (intro js_add_exact) linarith
  have k: "js_sub t (startDay + 1 + I + ?fp + 1 + ?rr + 1) = t - (startDay + 1 + I + ?fp + 1 + ?rr + 1)"
    using False assms(9) rr fp assms(5,6) by (intro js_sub_exact) linarith
  have cpos: "0 < W + 1 + ?rr + 1" using assms(1) rr by linarith
  have p: "js_add (js_rem x (W + 1 + ?rr + 1)) (W + 1 + ?rr + 1)
         = js_rem x (W + 1 + ?rr + 1) + (W + 1 + ?rr + 1)" for x
    using js_rem_bound [OF cpos, of x] assms(2) rr by (intro js_add_exact) linarith
  show ?thesis
    unfolding getSupervisorStateAtDay_def getSupervisorStateAtDay_exact_def Let_def
    unfolding e1 e2 unfolding c1 unfolding c2 unfolding c3 unfolding c4 unfolding c5 unfolding c6
    unfolding l1 l2 l3 k p
    by (rule refl)
qed

lemma getSupervisorStateAtDay_exact_segments:
  "getSupervisorStateAtDay_exact t s W R I = segments (t - s) W I (max 0 (W - I)) (max 0 (R - 2))"
proof -
  have e: "t - s - (1 + I + max 0 (W - I) + 1 + max 0 (R - 2) + 1)
         = t - (s + 1 + I + max 0 (W - I) + 1 + max 0 (R - 2) + 1)" by simp
  show ?thesis
    unfolding getSupervisorStateAtDay_exact_def Let_def segments_def cycle_state_def e
    by (simp only: less_diff_eq le_diff_eq diff_less_eq diff_le_eq eq_diff_eq diff_eq_eq add_0 add_0_right add.commute[of _ s] add.assoc  add.left_commute[of _ s])
qed

lemma getSupervisorStateAtDay_segments:
  assumes "0 \<le> W" "W \<le> 60" "0 \<le> R" "R \<le> 60" "0 \<le> I" "I \<le> 60"
    and "- 9007199254740992 \<le> s"
    and "s + 3 + I + max 0 (W - I) + max 0 (R - 2) \<le> 9007199254740992"
    and "t - s \<le> 9007199254740992"
  shows "getSupervisorStateAtDay t s W R I = segments (t - s) W I (max 0 (W - I)) (max 0 (R - 2))"
  using getSupervisorStateAtDay_exact_eq [OF assms]
  by (simp only: getSupervisorStateAtDay_exact_segments)

lemma segments_cycle:
  assumes "0 \<le> W" "0 \<le> I" "0 \<le> fp" "0 \<le> rr" "1 + I + fp + 1 + rr < x"
  shows "segments x W I fp rr = cycle_state W rr ((x - (1 + I + fp + 1 + rr + 1)) mod (W + 1 + rr + 1))"
proof -
  have "js_rem (js_rem (x - (1 + I + fp + 1 + rr + 1)) (W + 1 + rr + 1) + (W + 1 + rr + 1)) (W + 1 + rr + 1)
        = (x - (1 + I + fp + 1 + rr + 1)) mod (W + 1 + rr + 1)"
    using assms by (intro js_pos_nonneg) linarith+
  then show ?thesis using assms by (simp add: segments_def)
qed

lemma segments_second_S:
  assumes "0 \<le> W" "0 \<le> I" "0 \<le> fp" "0 \<le> rr"
  shows "segments (1 + I + fp + 1 + rr) W I fp rr = STATES_S"
  using assms by (simp add: segments_def)

lemma segments_periodic:
  assumes "0 \<le> W" "0 \<le> I" "0 \<le> fp" "0 \<le> rr" "1 + I + fp + 1 + rr \<le> x"
  shows "segments (x + (W + 1 + rr + 1)) W I fp rr = segments x W I fp rr"
proof (cases "x = 1 + I + fp + 1 + rr")
  case True
  have "segments (x + (W + 1 + rr + 1)) W I fp rr
      = cycle_state W rr ((x + (W + 1 + rr + 1) - (1 + I + fp + 1 + rr + 1)) mod (W + 1 + rr + 1))"
    using assms by (intro segments_cycle) linarith+
  also have "x + (W + 1 + rr + 1) - (1 + I + fp + 1 + rr + 1) = W + 1 + rr" using True by simp
  also have "(W + 1 + rr) mod (W + 1 + rr + 1) = W + 1 + rr" using assms by simp
  also have "cycle_state W rr (W + 1 + rr) = STATES_S" using assms by (simp add: cycle_state_def)
  finally show ?thesis using True segments_second_S[OF assms(1-4)] by simp
next
  case False
  then have lt: "1 + I + fp + 1 + rr < x" using assms by linarith
  define k where "k = x - (1 + I + fp + 1 + rr + 1)"
  define c where "c = W + 1 + rr + 1"
  have "segments (x + (W + 1 + rr + 1)) W I fp rr
      = cycle_state W rr ((x + (W + 1 + rr + 1) - (1 + I + fp + 1 + rr + 1)) mod (W + 1 + rr + 1))"
    using assms lt by (intro segments_cycle) linarith+
  moreover have "x + (W + 1 + rr + 1) - (1 + I + fp + 1 + rr + 1) = k + c"
    by (simp add: k_def c_def)
  moreover have "(k + c) mod c = k mod c" by (rule mod_add_self2)
  moreover have "segments x W I fp rr = cycle_state W rr (k mod c)"
    unfolding k_def c_def by (rule segments_cycle[OF assms(1-4) lt])
  ultimately show ?thesis by (simp only: c_def[symmetric])
qed

text \<open>
  Claim C2 (periodicity of the state generator), as stated: for clamped \<open>W \<ge> 1\<close>,
  \<open>R \<ge> 2\<close>, \<open>I\<close> in \<open>[1, 5]\<close>, every start day and every integer day \<open>t\<close> at or after the
  second STANDUP day \<open>startDay + 1 + I + max(0, W - I) + 1 + max(0, R - 2)\<close>, the state on
  day \<open>t + cycleLen\<close> is the state on day \<open>t\<close>, where
  \<open>cycleLen = W + 1 + max(0, R - 2) + 1\<close>.

  This fails where doubles stop holding every integer. With \<open>W = 2\<close>, \<open>R = 4\<close>, \<open>I = 1\<close>
  (so \<open>cycleLen = 6\<close>), \<open>startDay = -12\<close> and \<open>t = 2\<^sup>5\<^sup>3\<close>, both \<open>t\<close> and \<open>t + 6\<close> are doubles
  and \<open>t\<close> is past the second STANDUP day, but \<open>t - cursor\<close> is rounded: day \<open>t\<close> is
  PRODUCING and day \<open>t + 6\<close> is WINDDOWN.
\<close>

theorem getSupervisorStateAtDay_periodic_counterexample:
  "(1::int) \<le> 2 \<and> (2::int) \<le> 4 \<and> (1::int) \<le> 1 \<and> (1::int) \<le> 5
   \<and> (- 12::int) + 1 + 1 + max 0 (2 - 1) + 1 + max 0 (4 - 2) \<le> 9007199254740992
   \<and> round_double 9007199254740992 = 9007199254740992
   \<and> round_double (9007199254740992 + (2 + 1 + max 0 (4 - 2) + 1))
       = 9007199254740992 + (2 + 1 + max 0 (4 - 2) + 1)
   \<and> getSupervisorStateAtDay 9007199254740992 (- 12) 2 4 1 = STATES_P
   \<and> getSupervisorStateAtDay (9007199254740992 + (2 + 1 + max 0 (4 - 2) + 1)) (- 12) 2 4 1 = STATES_B
   \<and> getSupervisorStateAtDay (9007199254740992 + (2 + 1 + max 0 (4 - 2) + 1)) (- 12) 2 4 1
       \<noteq> getSupervisorStateAtDay 9007199254740992 (- 12) 2 4 1"
proof -
  have t: "(9007199254740992::int) + (2 + 1 + max 0 (4 - 2) + 1) = 9007199254740998" by simp
  have p: "getSupervisorStateAtDay 9007199254740992 (- 12) 2 4 1 = STATES_P" by code_simp
  have b: "getSupervisorStateAtDay 9007199254740998 (- 12) 2 4 1 = STATES_B" by code_simp
  have r: "round_double 9007199254740992 = 9007199254740992" by (simp add: round_double_exact)
  show ?thesis
    unfolding t using p b r round_double_examples(5) by simp
qed

text \<open>
  Claim C2, amended: the periodicity holds when every number the function computes is
  an integer of magnitude at most \<open>2\<^sup>5\<^sup>3\<close>, which a double holds exactly. That is the
  case for the clamped \<open>W\<close> in \<open>[1, 60]\<close>, \<open>R\<close> in \<open>[2, 60]\<close>, \<open>I\<close> in \<open>[1, 5]\<close>, a start day
  \<open>startDay \<ge> -2\<^sup>5\<^sup>3\<close> and a day \<open>t\<close> at or after the second STANDUP day with
  \<open>t + cycleLen \<le> 2\<^sup>5\<^sup>3\<close> and \<open>t + cycleLen - startDay \<le> 2\<^sup>5\<^sup>3\<close>; in particular for
  every \<open>startDay\<close> and \<open>t + cycleLen\<close> of magnitude at most \<open>2\<^sup>5\<^sup>2\<close>.
\<close>

theorem getSupervisorStateAtDay_periodic:
  assumes "1 \<le> W" "W \<le> 60" "2 \<le> R" "R \<le> 60" "1 \<le> I" "I \<le> 5"
    and "- 9007199254740992 \<le> startDay"
    and "startDay + 1 + I + max 0 (W - I) + 1 + max 0 (R - 2) \<le> t"
    and "t + (W + 1 + max 0 (R - 2) + 1) \<le> 9007199254740992"
    and "t + (W + 1 + max 0 (R - 2) + 1) - startDay \<le> 9007199254740992"
  shows "getSupervisorStateAtDay (t + (W + 1 + max 0 (R - 2) + 1)) startDay W R I
       = getSupervisorStateAtDay t startDay W R I"
proof -
  let ?c = "W + 1 + max 0 (R - 2) + 1"
  let ?seg = "\<lambda>x. segments x W I (max 0 (W - I)) (max 0 (R - 2))"
  have top: "startDay + 3 + I + max 0 (W - I) + max 0 (R - 2) \<le> 9007199254740992"
    using assms by linarith
  have a: "getSupervisorStateAtDay (t + ?c) startDay W R I = ?seg (t + ?c - startDay)"
    using assms top by (intro getSupervisorStateAtDay_segments) linarith+
  have b: "getSupervisorStateAtDay t startDay W R I = ?seg (t - startDay)"
    using assms top by (intro getSupervisorStateAtDay_segments) linarith+
  have "?seg (t - startDay + ?c) = ?seg (t - startDay)"
    using assms by (intro segments_periodic) linarith+
  moreover have "t + ?c - startDay = t - startDay + ?c" by simp
  ultimately show ?thesis by (simp only: a b)
qed

theorem getSupervisorStateAtDay_periodic_witness:
  "(1::int) \<le> 3 \<and> (3::int) \<le> 60 \<and> (2::int) \<le> 4 \<and> (4::int) \<le> 60 \<and> (1::int) \<le> 1 \<and> (1::int) \<le> 5
   \<and> - 9007199254740992 \<le> (0::int)
   \<and> (0::int) + 1 + 1 + max 0 (3 - 1) + 1 + max 0 (4 - 2) \<le> 7
   \<and> (7::int) + (3 + 1 + max 0 (4 - 2) + 1) \<le> 9007199254740992
   \<and> (7::int) + (3 + 1 + max 0 (4 - 2) + 1) - 0 \<le> 9007199254740992
   \<and> getSupervisorStateAtDay (7 + (3 + 1 + max 0 (4 - 2) + 1)) 0 3 4 1
       = getSupervisorStateAtDay 7 0 3 4 1
   \<and> getSupervisorStateAtDay 7 0 3 4 1 = STATES_S"
proof -
  have "getSupervisorStateAtDay 7 0 3 4 1 = STATES_S" by code_simp
  then show ?thesis
    using getSupervisorStateAtDay_periodic [of 3 4 1 0 7] by simp
qed

section \<open>The two regime interpretations\<close>

text \<open>
  Claim C8 (the two interpretations differ). There are inputs, inside the clamped
  ranges, on which the generator of \<open>src/lib/schedule.js\<close> and the other generator of the
  repository return different states: with \<open>W = 14\<close>, \<open>R = 7\<close>, \<open>I = 5\<close> and start day
  \<open>0\<close>, day \<open>13\<close> is PRODUCING for the first and WINDDOWN for the second.
\<close>

theorem interpretations_differ:
  "\<exists>t startDay W R I.
     1 \<le> W \<and> 2 \<le> R \<and> 1 \<le> I \<and> I \<le> 5 \<and> startDay \<le> t
     \<and> getSupervisorStateAtDay t startDay W R I = STATES_P
     \<and> getSupervisorStateAtDay_alt t startDay W R I = STATES_B
     \<and> getSupervisorStateAtDay t startDay W R I \<noteq> getSupervisorStateAtDay_alt t startDay W R I"
proof -
  have a: "getSupervisorStateAtDay 13 0 14 7 5 = STATES_P"
    by code_simp
  have b: "getSupervisorStateAtDay_alt 13 0 14 7 5 = STATES_B"
    by (simp add: getSupervisorStateAtDay_alt_def clampInt_def js_add_def js_sub_def
          round_double_exact js_rem_def)
  show ?thesis
    apply (rule exI [of _ 13], rule exI [of _ 0], rule exI [of _ 14], rule exI [of _ 7], rule exI [of _ 5])
    using a b by simp
qed

section \<open>The first on-duty block\<close>

lemma segments_first_block:
  assumes "0 \<le> I" "0 \<le> fp" "0 \<le> x" "x \<le> 1 + I + fp"
  shows "segments x W I fp rr = STATES_P \<longleftrightarrow> 1 + I \<le> x \<and> x < 1 + I + fp"
  using assms by (auto simp: segments_def)

lemma segments_I:
  assumes "1 \<le> x" "x \<le> I"
  shows "segments x W I fp rr = STATES_I"
  using assms by (simp add: segments_def)

lemma segments_P:
  assumes "0 \<le> I" "1 + I \<le> x" "x < 1 + I + fp"
  shows "segments x W I fp rr = STATES_P"
  using assms by (simp add: segments_def)

lemma segments_B:
  assumes "0 \<le> I" "0 \<le> fp"
  shows "segments (1 + I + fp) W I fp rr = STATES_B"
  using assms by (simp add: segments_def)

text \<open>
  Claim C5 (first-cycle shortening), as stated: for clamped \<open>W \<ge> 1\<close>, \<open>R \<ge> 2\<close>, \<open>I\<close> in
  \<open>[1, 5]\<close> and every start day, the number of PRODUCING days in the first on-duty block
  is \<open>max(0, W - I)\<close>.

  This fails where doubles stop holding every integer. With \<open>W = 3\<close>, \<open>R = 2\<close>, \<open>I = 1\<close>
  and \<open>startDay = 2\<^sup>5\<^sup>3\<close> the block runs to \<open>startDay + 1 + I + max(0, W - I) = 2\<^sup>5\<^sup>3 + 4\<close>.
  The days of it that are doubles are \<open>2\<^sup>5\<^sup>3\<close>, \<open>2\<^sup>5\<^sup>3 + 2\<close> and \<open>2\<^sup>5\<^sup>3 + 4\<close>; since
  \<open>cursor += 1\<close> is rounded they are STANDUP, WINDDOWN and STANDUP, so none of them is
  PRODUCING, where \<open>max(0, W - I) = 2\<close>.
\<close>

theorem first_block_producing_days_counterexample:
  "(1::int) \<le> 3 \<and> (2::int) \<le> 2 \<and> (1::int) \<le> 1 \<and> (1::int) \<le> 5
   \<and> [9007199254740992 .. 9007199254740992 + 1 + 1 + max 0 (3 - 1)]
       = [9007199254740992, 9007199254740993, 9007199254740994, 9007199254740995, 9007199254740996]
   \<and> round_double 9007199254740993 \<noteq> 9007199254740993
   \<and> round_double 9007199254740995 \<noteq> 9007199254740995
   \<and> getSupervisorStateAtDay 9007199254740992 9007199254740992 3 2 1 = STATES_S
   \<and> getSupervisorStateAtDay 9007199254740994 9007199254740992 3 2 1 = STATES_B
   \<and> getSupervisorStateAtDay 9007199254740996 9007199254740992 3 2 1 = STATES_S
   \<and> count_list [getSupervisorStateAtDay 9007199254740992 9007199254740992 3 2 1,
                  getSupervisorStateAtDay 9007199254740994 9007199254740992 3 2 1,
                  getSupervisorStateAtDay 9007199254740996 9007199254740992 3 2 1] STATES_P = 0
   \<and> nat (max 0 (3 - 1)) = 2"
proof -
  have l: "[9007199254740992 .. 9007199254740992 + 1 + 1 + max 0 (3 - 1)]
       = [9007199254740992, 9007199254740993, 9007199254740994, 9007199254740995, 9007199254740996::int]"
    by code_simp
  have s0: "getSupervisorStateAtDay 9007199254740992 9007199254740992 3 2 1 = STATES_S" by code_simp
  have s2: "getSupervisorStateAtDay 9007199254740994 9007199254740992 3 2 1 = STATES_B" by code_simp
  have s4: "getSupervisorStateAtDay 9007199254740996 9007199254740992 3 2 1 = STATES_S" by code_simp
  show ?thesis
    unfolding l s0 s2 s4 using round_double_examples(1,3) by simp
qed

text \<open>
  Claim C5, amended: for the clamped \<open>W\<close> in \<open>[1, 60]\<close>, \<open>R\<close> in \<open>[2, 60]\<close>, \<open>I\<close> in \<open>[1, 5]\<close>
  and a start day from \<open>-2\<^sup>5\<^sup>3\<close> to \<open>2\<^sup>5\<^sup>3 - 125\<close>, so that every day of the unit's first
  cycle is an integer a double holds exactly, the first on-duty block runs from the
  STANDUP day \<open>startDay\<close> to the WINDDOWN day \<open>startDay + 1 + I + max(0, W - I)\<close>: it is one
  STANDUP day, \<open>I\<close> INDUCTION days, then PRODUCING days, then the WINDDOWN day. The number
  of PRODUCING days in it is \<open>max(0, W - I)\<close>, which is at most \<open>W\<close>. When \<open>W \<le> I\<close> there is
  none, and the last INDUCTION day is directly followed by the WINDDOWN day.
\<close>

theorem first_block_producing_days:
  assumes "1 \<le> W" "W \<le> 60" "2 \<le> R" "R \<le> 60" "1 \<le> I" "I \<le> 5"
    and "- 9007199254740992 \<le> startDay" and "startDay + 125 \<le> 9007199254740992"
  shows "length (filter (\<lambda>t. getSupervisorStateAtDay t startDay W R I = STATES_P)
                   [startDay .. startDay + 1 + I + max 0 (W - I)]) = nat (max 0 (W - I))
       \<and> max 0 (W - I) \<le> W
       \<and> getSupervisorStateAtDay startDay startDay W R I = STATES_S
       \<and> (\<forall>t. startDay + 1 \<le> t \<and> t \<le> startDay + I \<longrightarrow>
               getSupervisorStateAtDay t startDay W R I = STATES_I)
       \<and> (\<forall>t. startDay + 1 + I \<le> t \<and> t < startDay + 1 + I + max 0 (W - I) \<longrightarrow>
               getSupervisorStateAtDay t startDay W R I = STATES_P)
       \<and> getSupervisorStateAtDay (startDay + 1 + I + max 0 (W - I)) startDay W R I = STATES_B
       \<and> (W \<le> I \<longrightarrow>
            getSupervisorStateAtDay (startDay + I) startDay W R I = STATES_I
          \<and> getSupervisorStateAtDay (startDay + I + 1) startDay W R I = STATES_B
          \<and> filter (\<lambda>t. getSupervisorStateAtDay t startDay W R I = STATES_P)
                   [startDay .. startDay + 1 + I + max 0 (W - I)] = [])"
proof -
  let ?P = "\<lambda>t. getSupervisorStateAtDay t startDay W R I = STATES_P"
  let ?e = "startDay + 1 + I + max 0 (W - I)"
  let ?seg = "\<lambda>x. segments x W I (max 0 (W - I)) (max 0 (R - 2))"
  have top: "startDay + 3 + I + max 0 (W - I) + max 0 (R - 2) \<le> 9007199254740992"
    using assms by simp
  have sg: "getSupervisorStateAtDay t startDay W R I = ?seg (t - startDay)" if "t \<le> ?e" for t
    using assms top that by (intro getSupervisorStateAtDay_segments) simp_all
  have blk: "?P t \<longleftrightarrow> startDay + 1 + I \<le> t \<and> t < ?e" if "startDay \<le> t" "t \<le> ?e" for t
  proof -
    have "?seg (t - startDay) = STATES_P
            \<longleftrightarrow> 1 + I \<le> t - startDay \<and> t - startDay < 1 + I + max 0 (W - I)"
      using assms that by (intro segments_first_block) simp_all
    then show ?thesis unfolding sg [OF that(2)] by auto
  qed
  have "{t. ?P t} \<inter> {startDay .. ?e} = {startDay + 1 + I ..< ?e}"
    using blk assms(5) by auto
  moreover have "length (filter ?P [startDay .. ?e]) = card ({t. ?P t} \<inter> set [startDay .. ?e])"
    by (rule distinct_length_filter) simp
  ultimately have "length (filter ?P [startDay .. ?e]) = card {startDay + 1 + I ..< ?e}"
    by simp
  also have "\<dots> = nat (max 0 (W - I))" by simp
  finally have cnt: "length (filter ?P [startDay .. ?e]) = nat (max 0 (W - I))" .
  have le: "max 0 (W - I) \<le> W" using assms by simp
  have s: "getSupervisorStateAtDay startDay startDay W R I = STATES_S"
    by (simp add: getSupervisorStateAtDay_def)
  have i: "\<forall>t. startDay + 1 \<le> t \<and> t \<le> startDay + I \<longrightarrow>
               getSupervisorStateAtDay t startDay W R I = STATES_I"
  proof (intro allI impI)
    fix t assume t: "startDay + 1 \<le> t \<and> t \<le> startDay + I"
    then have "t \<le> ?e" by linarith
    from sg [OF this] t show "getSupervisorStateAtDay t startDay W R I = STATES_I"
      by (simp add: segments_I)
  qed
  have p: "\<forall>t. startDay + 1 + I \<le> t \<and> t < startDay + 1 + I + max 0 (W - I) \<longrightarrow>
               getSupervisorStateAtDay t startDay W R I = STATES_P"
  proof (intro allI impI)
    fix t assume t: "startDay + 1 + I \<le> t \<and> t < startDay + 1 + I + max 0 (W - I)"
    then have "t \<le> ?e" by linarith
    from sg [OF this] t assms(5) show "getSupervisorStateAtDay t startDay W R I = STATES_P"
      by (simp add: segments_P)
  qed
  have "?seg (1 + I + max 0 (W - I)) = STATES_B"
    using assms by (intro segments_B) simp_all
  moreover have "?e - startDay = 1 + I + max 0 (W - I)" by simp
  moreover have "getSupervisorStateAtDay ?e startDay W R I = ?seg (?e - startDay)"
    by (rule sg) (rule order_refl)
  ultimately have b: "getSupervisorStateAtDay ?e startDay W R I = STATES_B"
    by (simp only:)
  have z: "W \<le> I \<longrightarrow>
            getSupervisorStateAtDay (startDay + I) startDay W R I = STATES_I
          \<and> getSupervisorStateAtDay (startDay + I + 1) startDay W R I = STATES_B
          \<and> filter ?P [startDay .. ?e] = []"
  proof
    assume wi: "W \<le> I"
    then have m: "max 0 (W - I) = 0" by simp
    have "getSupervisorStateAtDay (startDay + I) startDay W R I = STATES_I"
      using i assms by simp
    moreover have "getSupervisorStateAtDay (startDay + I + 1) startDay W R I = STATES_B"
      using b m by (simp add: add.commute add.left_commute)
    moreover have "filter ?P [startDay .. ?e] = []"
      using cnt m by simp
    ultimately show "getSupervisorStateAtDay (startDay + I) startDay W R I = STATES_I
          \<and> getSupervisorStateAtDay (startDay + I + 1) startDay W R I = STATES_B
          \<and> filter ?P [startDay .. ?e] = []" by simp
  qed
  from cnt le s i p b z show ?thesis by blast
qed

theorem first_block_producing_days_witness:
  "(1::int) \<le> 1 \<and> (1::int) \<le> 60 \<and> (2::int) \<le> 2 \<and> (2::int) \<le> 60 \<and> (1::int) \<le> 5 \<and> (5::int) \<le> 5
   \<and> - 9007199254740992 \<le> (3::int) \<and> (3::int) + 125 \<le> 9007199254740992
   \<and> (3::int) + 1 \<le> 6 \<and> (6::int) \<le> 3 + 5
   \<and> length (filter (\<lambda>t. getSupervisorStateAtDay t 3 1 2 5 = STATES_P)
                [3 .. 3 + 1 + 5 + max 0 (1 - 5)]) = nat (max 0 (1 - 5))
   \<and> getSupervisorStateAtDay 6 3 1 2 5 = STATES_I
   \<and> getSupervisorStateAtDay (3 + 5) 3 1 2 5 = STATES_I
   \<and> getSupervisorStateAtDay (3 + 5 + 1) 3 1 2 5 = STATES_B
   \<and> (1::int) \<le> 3 \<and> (3::int) \<le> 60 \<and> (1::int) \<le> 1
   \<and> - 9007199254740992 \<le> (0::int) \<and> (0::int) + 125 \<le> 9007199254740992
   \<and> (0::int) + 1 + 1 \<le> 2 \<and> (2::int) < 0 + 1 + 1 + max 0 (3 - 1)
   \<and> getSupervisorStateAtDay 2 0 3 2 1 = STATES_P
   \<and> length (filter (\<lambda>t. getSupervisorStateAtDay t 0 3 2 1 = STATES_P)
                [0 .. 0 + 1 + 1 + max 0 (3 - 1)]) = nat (max 0 (3 - 1))"
  using first_block_producing_days [of 1 2 5 3] first_block_producing_days [of 3 2 1 0]
  by simp

section \<open>Properties of the offset solver\<close>

lemma inner_loop_scan:
  "inner_loop W R I h s1 o2 cs3 best = scan W R I h s1 (map (Pair o2) cs3) best"
  by (induction cs3 arbitrary: best)
     (simp_all add: Let_def candidate_def keep_def split: option.splits)

lemma scan_append:
  "scan W R I h s1 (xs @ ys) best =
     (case scan W R I h s1 xs best of Inl r \<Rightarrow> Inl r | Inr b \<Rightarrow> scan W R I h s1 ys b)"
  by (induction xs arbitrary: best) simp_all

lemma outer_loop_scan:
  "outer_loop W R I h s1 cs2 cs3 best = scan W R I h s1 (List.product cs2 cs3) best"
  by (induction cs2 arbitrary: best) (simp_all add: scan_append inner_loop_scan split: sum.splits)

lemma search_scan:
  "search W R I h s1 = scan W R I h s1 (List.product (candidates W R I h) (candidates W R I h)) None"
  by (simp add: search_def outer_loop_scan)

text \<open>An early return is the first perfect pair in the order of the list.\<close>

lemma scan_Inl:
  "scan W R I h s1 ps best = Inl r \<Longrightarrow>
     \<exists>xs c ys. ps = xs @ c # ys \<and> r = candidate W R I h s1 c
       \<and> isPerfect (offsets.diagnostics (candidate W R I h s1 c))
       \<and> (\<forall>x \<in> set xs. \<not> isPerfect (offsets.diagnostics (candidate W R I h s1 x)))"
proof (induction ps arbitrary: best)
  case Nil
  then show ?case by simp
next
  case (Cons p ps)
  show ?case
  proof (cases "isPerfect (offsets.diagnostics (candidate W R I h s1 p))")
    case True
    with Cons.prems have "r = candidate W R I h s1 p" by simp
    with True show ?thesis by (intro exI [of _ "[]"] exI [of _ p] exI [of _ ps]) simp
  next
    case False
    with Cons.prems have "scan W R I h s1 ps (keep best (candidate W R I h s1 p)) = Inl r" by simp
    from Cons.IH [OF this] obtain xs c ys where
      "ps = xs @ c # ys" "r = candidate W R I h s1 c"
      "isPerfect (offsets.diagnostics (candidate W R I h s1 c))"
      "\<forall>x \<in> set xs. \<not> isPerfect (offsets.diagnostics (candidate W R I h s1 x))" by blast
    with False show ?thesis
      by (intro exI [of _ "p # xs"] exI [of _ c] exI [of _ ys]) simp
  qed
qed

text \<open>Without an early return no pair is perfect and \<open>best\<close> went through every update.\<close>

lemma scan_Inr:
  "scan W R I h s1 ps best = Inr b \<Longrightarrow>
     (\<forall>x \<in> set ps. \<not> isPerfect (offsets.diagnostics (candidate W R I h s1 x)))
     \<and> b = fold (\<lambda>c acc. keep acc (candidate W R I h s1 c)) ps best"
  by (induction ps arbitrary: best) (auto split: if_splits)

lemma scan_no_perfect:
  "\<forall>x \<in> set ps. \<not> isPerfect (offsets.diagnostics (candidate W R I h s1 x)) \<Longrightarrow>
     scan W R I h s1 ps best = Inr (fold (\<lambda>c acc. keep acc (candidate W R I h s1 c)) ps best)"
  by (induction ps arbitrary: best) simp_all

lemma scan_some_perfect:
  "\<exists>x \<in> set ps. isPerfect (offsets.diagnostics (candidate W R I h s1 x)) \<Longrightarrow>
     \<exists>r. scan W R I h s1 ps best = Inl r"
  by (induction ps arbitrary: best) auto

text \<open>The best of a non-empty list: the first pair with the least score.\<close>

lemma fold_keep_first_min:
  assumes "ps \<noteq> []"
  shows "\<exists>xs c ys. ps = xs @ c # ys
           \<and> fold (\<lambda>c acc. keep acc (candidate W R I h s1 c)) ps None = Some (candidate W R I h s1 c)
           \<and> (\<forall>x \<in> set xs. score (offsets.diagnostics (candidate W R I h s1 c))
                              < score (offsets.diagnostics (candidate W R I h s1 x)))
           \<and> (\<forall>y \<in> set ys. score (offsets.diagnostics (candidate W R I h s1 c))
                              \<le> score (offsets.diagnostics (candidate W R I h s1 y)))"
  using assms
proof (induction ps rule: rev_induct)
  case Nil
  then show ?case by simp
next
  case (snoc p ps)
  let ?sc = "\<lambda>c. score (offsets.diagnostics (candidate W R I h s1 c))"
  let ?f = "\<lambda>c acc. keep acc (candidate W R I h s1 c)"
  show ?case
  proof (cases "ps = []")
    case True
    then show ?thesis
      by (intro exI [of _ "[]"] exI [of _ p] exI [of _ "[]"]) (simp add: keep_def)
  next
    case False
    from snoc.IH [OF False] obtain xs c ys where
      ps: "ps = xs @ c # ys" and f: "fold ?f ps None = Some (candidate W R I h s1 c)"
      and lt: "\<forall>x \<in> set xs. ?sc c < ?sc x" and le: "\<forall>y \<in> set ys. ?sc c \<le> ?sc y"
      by blast
    show ?thesis
    proof (cases "?sc p < ?sc c")
      case True
      have "fold ?f (ps @ [p]) None = Some (candidate W R I h s1 p)"
        using f True by (simp add: keep_def)
      moreover have "\<forall>x \<in> set ps. ?sc p < ?sc x"
        using ps lt le True by auto
      ultimately show ?thesis
        by (intro exI [of _ ps] exI [of _ p] exI [of _ "[]"]) simp
    next
      case False
      have "fold ?f (ps @ [p]) None = Some (candidate W R I h s1 c)"
        using f False by (simp add: keep_def)
      moreover have "\<forall>y \<in> set (ys @ [p]). ?sc c \<le> ?sc y"
        using le False by auto
      ultimately show ?thesis
        using ps lt by (intro exI [of _ xs] exI [of _ c] exI [of _ "ys @ [p]"]) simp
    qed
  qed
qed


text \<open>The pairs are visited in lexicographic order.\<close>

lemma sorted_wrt_product:
  "sorted_wrt (<) xs \<Longrightarrow> sorted_wrt (<) ys \<Longrightarrow> sorted_wrt lex_less (List.product xs ys)"
proof (induction xs)
  case Nil
  then show ?case by simp
next
  case (Cons x xs)
  have "sorted_wrt lex_less (map (Pair x) ys)"
    using Cons.prems(2) by (simp add: sorted_wrt_map lex_less_def)
  moreover have "sorted_wrt lex_less (List.product xs ys)"
    using Cons by simp
  moreover have "\<forall>a \<in> set (map (Pair x) ys). \<forall>b \<in> set (List.product xs ys). lex_less a b"
    using Cons.prems(1) by (auto simp: lex_less_def)
  ultimately show ?case by (simp add: sorted_wrt_append)
qed

lemma sorted_wrt_upto: "sorted_wrt (<) [i..j]"
  by (simp add: strict_sorted_iff)

lemma lex_less_before:
  assumes "sorted_wrt lex_less (xs @ c # ys)"
  shows "x \<in> set xs \<longleftrightarrow> x \<in> set (xs @ c # ys) \<and> lex_less x c"
proof -
  have a: "\<forall>x \<in> set xs. lex_less x c" and b: "\<forall>y \<in> set ys. lex_less c y"
    using assms by (auto simp: sorted_wrt_append)
  have "\<not> lex_less c c" by (simp add: lex_less_def)
  moreover have "\<forall>y \<in> set ys. \<not> lex_less y c"
    using b by (auto simp: lex_less_def)
  ultimately show ?thesis using a by auto
qed

lemma set_product_candidates:
  "c \<in> set (List.product (candidates W R I h) (candidates W R I h))
     \<longleftrightarrow> 0 \<le> fst c \<and> fst c \<le> maxOffset W R I h \<and> 0 \<le> snd c \<and> snd c \<le> maxOffset W R I h"
  by (cases c) (auto simp: candidates_def)

lemma candidates_nonempty: "0 \<le> maxOffset W R I h \<Longrightarrow> candidates W R I h \<noteq> []"
  by (simp add: candidates_def)

lemma product_nonempty: "xs \<noteq> [] \<Longrightarrow> ys \<noteq> [] \<Longrightarrow> List.product xs ys \<noteq> []"
  by (cases xs; cases ys) simp_all

text \<open>
  What \<open>findBestOffsets\<close> returns, in terms of the position of the chosen pair in the
  order of enumeration.
\<close>

lemma findBestOffsets_perfect:
  assumes "\<exists>x \<in> set (List.product (candidates W R I h) (candidates W R I h)).
             isPerfect (offsets.diagnostics (candidate W R I h s1 x))"
  shows "\<exists>xs c ys. List.product (candidates W R I h) (candidates W R I h) = xs @ c # ys
           \<and> findBestOffsets W R I h s1 = candidate W R I h s1 c
           \<and> search W R I h s1 = Inl (candidate W R I h s1 c)
           \<and> isPerfect (offsets.diagnostics (candidate W R I h s1 c))
           \<and> (\<forall>x \<in> set xs. \<not> isPerfect (offsets.diagnostics (candidate W R I h s1 x)))"
proof -
  from scan_some_perfect [OF assms] obtain r where
    r: "search W R I h s1 = Inl r" unfolding search_scan by blast
  from scan_Inl [OF r [unfolded search_scan]] r show ?thesis
    by (auto simp: findBestOffsets_def)
qed

lemma findBestOffsets_imperfect:
  assumes "\<forall>x \<in> set (List.product (candidates W R I h) (candidates W R I h)).
             \<not> isPerfect (offsets.diagnostics (candidate W R I h s1 x))"
    and "0 \<le> maxOffset W R I h"
  shows "\<exists>xs c ys. List.product (candidates W R I h) (candidates W R I h) = xs @ c # ys
           \<and> findBestOffsets W R I h s1 = candidate W R I h s1 c
           \<and> search W R I h s1 = Inr (Some (candidate W R I h s1 c))
           \<and> (\<forall>x \<in> set xs. score (offsets.diagnostics (candidate W R I h s1 c))
                              < score (offsets.diagnostics (candidate W R I h s1 x)))
           \<and> (\<forall>y \<in> set ys. score (offsets.diagnostics (candidate W R I h s1 c))
                              \<le> score (offsets.diagnostics (candidate W R I h s1 y)))"
proof -
  let ?ps = "List.product (candidates W R I h) (candidates W R I h)"
  have ne: "?ps \<noteq> []"
    using assms(2) by (intro product_nonempty candidates_nonempty)
  have s: "search W R I h s1 = Inr (fold (\<lambda>c acc. keep acc (candidate W R I h s1 c)) ?ps None)"
    unfolding search_scan using assms(1) by (rule scan_no_perfect)
  from fold_keep_first_min [OF ne, of W R I h s1] obtain xs c ys where
    p: "?ps = xs @ c # ys"
    and f: "fold (\<lambda>c acc. keep acc (candidate W R I h s1 c)) ?ps None = Some (candidate W R I h s1 c)"
    and lt: "\<forall>x \<in> set xs. score (offsets.diagnostics (candidate W R I h s1 c))
                              < score (offsets.diagnostics (candidate W R I h s1 x))"
    and le: "\<forall>y \<in> set ys. score (offsets.diagnostics (candidate W R I h s1 c))
                              \<le> score (offsets.diagnostics (candidate W R I h s1 y))"
    by blast
  have s': "search W R I h s1 = Inr (Some (candidate W R I h s1 c))"
    using s f by simp
  then have "findBestOffsets W R I h s1 = candidate W R I h s1 c"
    by (simp add: findBestOffsets_def)
  with p s' lt le show ?thesis by blast
qed

lemma findBestOffsets_in_range:
  assumes "0 \<le> maxOffset W R I h"
  shows "\<exists>c. findBestOffsets W R I h s1 = candidate W R I h s1 c
           \<and> search W R I h s1 \<noteq> Inr None
           \<and> 0 \<le> fst c \<and> fst c \<le> maxOffset W R I h \<and> 0 \<le> snd c \<and> snd c \<le> maxOffset W R I h"
proof (cases "\<exists>x \<in> set (List.product (candidates W R I h) (candidates W R I h)).
             isPerfect (offsets.diagnostics (candidate W R I h s1 x))")
  case True
  from findBestOffsets_perfect [OF True] obtain xs c ys where
    p: "List.product (candidates W R I h) (candidates W R I h) = xs @ c # ys"
    and f: "findBestOffsets W R I h s1 = candidate W R I h s1 c"
    and s: "search W R I h s1 = Inl (candidate W R I h s1 c)" by blast
  have "c \<in> set (List.product (candidates W R I h) (candidates W R I h))"
    unfolding p by simp
  then have "0 \<le> fst c \<and> fst c \<le> maxOffset W R I h \<and> 0 \<le> snd c \<and> snd c \<le> maxOffset W R I h"
    by (simp only: set_product_candidates)
  with f s show ?thesis by (intro exI [of _ c]) simp
next
  case False
  then have "\<forall>x \<in> set (List.product (candidates W R I h) (candidates W R I h)).
             \<not> isPerfect (offsets.diagnostics (candidate W R I h s1 x))" by blast
  from findBestOffsets_imperfect [OF this assms] obtain xs c ys where
    p: "List.product (candidates W R I h) (candidates W R I h) = xs @ c # ys"
    and f: "findBestOffsets W R I h s1 = candidate W R I h s1 c"
    and s: "search W R I h s1 = Inr (Some (candidate W R I h s1 c))" by blast
  have "c \<in> set (List.product (candidates W R I h) (candidates W R I h))"
    unfolding p by simp
  then have "0 \<le> fst c \<and> fst c \<le> maxOffset W R I h \<and> 0 \<le> snd c \<and> snd c \<le> maxOffset W R I h"
    by (simp only: set_product_candidates)
  with f s show ?thesis by (intro exI [of _ c]) simp
qed

lemma candidate_sel:
  "startS2 (candidate W R I h s1 c) = fst c"
  "startS3 (candidate W R I h s1 c) = snd c"
  "offsets.diagnostics (candidate W R I h s1 c) = scoreOffsets W R I h [s1, fst c, snd c]"
  by (simp_all add: candidate_def)

lemma sorted_candidate_pairs:
  "sorted_wrt lex_less (List.product (candidates W R I h) (candidates W R I h))"
  unfolding candidates_def by (intro sorted_wrt_product sorted_wrt_upto)

lemma scoreOffsets_score:
  "score (scoreOffsets W R I h [s1, o2, o3])
     = threePDays (scoreOffsets W R I h [s1, o2, o3]) * 1000
       + notTwoAfterPDays (scoreOffsets W R I h [s1, o2, o3]) * 10 + \<bar>o2 - s1\<bar> + \<bar>o3 - s1\<bar>"
  by (simp add: scoreOffsets_def Let_def)

lemma scoreOffsets_isPerfect:
  "isPerfect (scoreOffsets W R I h sts)
     \<longleftrightarrow> threePDays (scoreOffsets W R I h sts) = 0 \<and> notTwoAfterPDays (scoreOffsets W R I h sts) = 0"
  by (simp add: scoreOffsets_def Let_def)

text \<open>
  Claim C3 (solver selection rule). \<open>findBestOffsets\<close>, with unit 1 at day \<open>0\<close>, visits the
  pairs \<open>(offset2, offset3)\<close> of \<open>[0, maxOffset]\<^sup>2\<close> with \<open>offset2\<close> ascending in the outer
  loop and \<open>offset3\<close> ascending in the inner loop. If some pair of the range is perfect,
  it returns a perfect pair that no perfect pair of the range precedes in the
  lexicographic order. If no pair of the range is perfect and the range is not empty, it
  returns a pair whose score is at most the score of every pair of the range and
  strictly below the score of every pair that precedes it. In both cases the pair lies
  in the range and comes with its own diagnostics, where
  \<open>score = threePDays * 1000 + notTwoAfterPDays * 10 + |offset2| + |offset3|\<close> and
  \<open>isPerfect = (threePDays = 0 and notTwoAfterPDays = 0)\<close>.
\<close>

theorem findBestOffsets_selection:
  fixes W R I :: int and horizon :: nat
  defines "m \<equiv> maxOffset W R I horizon"
    and "r \<equiv> findBestOffsets W R I horizon 0"
    and "diag \<equiv> \<lambda>o2 o3. scoreOffsets W R I horizon [0, o2, o3]"
  shows
    "(\<forall>o2 o3. 0 \<le> o2 \<and> o2 \<le> m \<and> 0 \<le> o3 \<and> o3 \<le> m \<and> isPerfect (diag o2 o3) \<longrightarrow>
        isPerfect (offsets.diagnostics r) \<and> \<not> lex_less (o2, o3) (startS2 r, startS3 r))
   \<and> ((\<forall>o2 o3. 0 \<le> o2 \<and> o2 \<le> m \<and> 0 \<le> o3 \<and> o3 \<le> m \<longrightarrow> \<not> isPerfect (diag o2 o3)) \<and> 0 \<le> m \<longrightarrow>
        (\<forall>o2 o3. 0 \<le> o2 \<and> o2 \<le> m \<and> 0 \<le> o3 \<and> o3 \<le> m \<longrightarrow>
            score (offsets.diagnostics r) \<le> score (diag o2 o3)
          \<and> (lex_less (o2, o3) (startS2 r, startS3 r) \<longrightarrow>
                score (offsets.diagnostics r) < score (diag o2 o3))))
   \<and> (0 \<le> m \<longrightarrow>
        0 \<le> startS2 r \<and> startS2 r \<le> m \<and> 0 \<le> startS3 r \<and> startS3 r \<le> m
      \<and> offsets.diagnostics r = diag (startS2 r) (startS3 r))
   \<and> (\<forall>o2 o3. score (diag o2 o3)
                 = threePDays (diag o2 o3) * 1000 + notTwoAfterPDays (diag o2 o3) * 10 + \<bar>o2\<bar> + \<bar>o3\<bar>
              \<and> (isPerfect (diag o2 o3)
                   \<longleftrightarrow> threePDays (diag o2 o3) = 0 \<and> notTwoAfterPDays (diag o2 o3) = 0))"
proof -
  let ?ps = "List.product (candidates W R I horizon) (candidates W R I horizon)"
  let ?cand = "candidate W R I horizon 0"
  have inps: "(o2, o3) \<in> set ?ps \<longleftrightarrow> 0 \<le> o2 \<and> o2 \<le> m \<and> 0 \<le> o3 \<and> o3 \<le> m" for o2 o3
    using set_product_candidates [of "(o2, o3)" W R I horizon] unfolding m_def by simp
  have dg: "\<And>c. offsets.diagnostics (?cand c) = diag (fst c) (snd c)"
    by (simp add: candidate_sel diag_def)
  have A: "\<forall>o2 o3. 0 \<le> o2 \<and> o2 \<le> m \<and> 0 \<le> o3 \<and> o3 \<le> m \<and> isPerfect (diag o2 o3) \<longrightarrow>
        isPerfect (offsets.diagnostics r) \<and> \<not> lex_less (o2, o3) (startS2 r, startS3 r)"
  proof (intro allI impI)
    fix o2 o3
    assume h: "0 \<le> o2 \<and> o2 \<le> m \<and> 0 \<le> o3 \<and> o3 \<le> m \<and> isPerfect (diag o2 o3)"
    then have mem: "(o2, o3) \<in> set ?ps" using inps [of o2 o3] by blast
    moreover have "isPerfect (offsets.diagnostics (?cand (o2, o3)))" using h by (simp add: dg)
    ultimately have "\<exists>x \<in> set ?ps. isPerfect (offsets.diagnostics (?cand x))" by blast
    from findBestOffsets_perfect [OF this] obtain xs c ys where
      p: "?ps = xs @ c # ys" and f: "r = ?cand c"
      and pc: "isPerfect (offsets.diagnostics (?cand c))"
      and np: "\<forall>x \<in> set xs. \<not> isPerfect (offsets.diagnostics (?cand x))"
      unfolding r_def by blast
    have "sorted_wrt lex_less (xs @ c # ys)"
      using sorted_candidate_pairs [of W R I horizon] unfolding p .
    from lex_less_before [OF this, of "(o2, o3)"]
    have "(o2, o3) \<in> set xs \<longleftrightarrow> (o2, o3) \<in> set ?ps \<and> lex_less (o2, o3) c"
      unfolding p .
    moreover have "(o2, o3) \<notin> set xs" using np h by (auto simp: dg)
    ultimately have "\<not> lex_less (o2, o3) c" using mem by blast
    then show "isPerfect (offsets.diagnostics r) \<and> \<not> lex_less (o2, o3) (startS2 r, startS3 r)"
      using pc f by (simp add: candidate_sel)
  qed
  have B: "(\<forall>o2 o3. 0 \<le> o2 \<and> o2 \<le> m \<and> 0 \<le> o3 \<and> o3 \<le> m \<longrightarrow> \<not> isPerfect (diag o2 o3)) \<and> 0 \<le> m \<longrightarrow>
        (\<forall>o2 o3. 0 \<le> o2 \<and> o2 \<le> m \<and> 0 \<le> o3 \<and> o3 \<le> m \<longrightarrow>
            score (offsets.diagnostics r) \<le> score (diag o2 o3)
          \<and> (lex_less (o2, o3) (startS2 r, startS3 r) \<longrightarrow>
                score (offsets.diagnostics r) < score (diag o2 o3)))"
  proof (intro allI impI)
    fix o2 o3
    assume h: "(\<forall>o2 o3. 0 \<le> o2 \<and> o2 \<le> m \<and> 0 \<le> o3 \<and> o3 \<le> m \<longrightarrow> \<not> isPerfect (diag o2 o3)) \<and> 0 \<le> m"
      and rg: "0 \<le> o2 \<and> o2 \<le> m \<and> 0 \<le> o3 \<and> o3 \<le> m"
    have "\<forall>x \<in> set ?ps. \<not> isPerfect (offsets.diagnostics (?cand x))"
    proof
      fix x assume "x \<in> set ?ps"
      then have "(fst x, snd x) \<in> set ?ps" by simp
      then show "\<not> isPerfect (offsets.diagnostics (?cand x))"
        using h unfolding inps dg by blast
    qed
    moreover have "0 \<le> maxOffset W R I horizon" using h by (simp add: m_def)
    ultimately obtain xs c ys where
      p: "?ps = xs @ c # ys" and f: "r = ?cand c"
      and lt: "\<forall>x \<in> set xs. score (offsets.diagnostics (?cand c)) < score (offsets.diagnostics (?cand x))"
      and le: "\<forall>y \<in> set ys. score (offsets.diagnostics (?cand c)) \<le> score (offsets.diagnostics (?cand y))"
      using findBestOffsets_imperfect [of W R I horizon 0] unfolding r_def by blast
    have "(o2, o3) \<in> set ?ps" using rg inps [of o2 o3] by blast
    then have mem: "(o2, o3) \<in> set (xs @ c # ys)" unfolding p .
    have srt: "sorted_wrt lex_less (xs @ c # ys)"
      using sorted_candidate_pairs [of W R I horizon] unfolding p .
    have all: "score (offsets.diagnostics (?cand c)) \<le> score (offsets.diagnostics (?cand (o2, o3)))"
      using mem lt le by auto
    have "lex_less (o2, o3) c \<longrightarrow> (o2, o3) \<in> set xs"
      using lex_less_before [OF srt, of "(o2, o3)"] mem by blast
    then have "lex_less (o2, o3) c \<longrightarrow>
        score (offsets.diagnostics (?cand c)) < score (offsets.diagnostics (?cand (o2, o3)))"
      using lt by blast
    with all show "score (offsets.diagnostics r) \<le> score (diag o2 o3)
          \<and> (lex_less (o2, o3) (startS2 r, startS3 r) \<longrightarrow>
                score (offsets.diagnostics r) < score (diag o2 o3))"
      unfolding f by (simp add: candidate_sel diag_def)
  qed
  have C: "0 \<le> m \<longrightarrow>
        0 \<le> startS2 r \<and> startS2 r \<le> m \<and> 0 \<le> startS3 r \<and> startS3 r \<le> m
      \<and> offsets.diagnostics r = diag (startS2 r) (startS3 r)"
  proof
    assume "0 \<le> m"
    then have "0 \<le> maxOffset W R I horizon" by (simp add: m_def)
    from findBestOffsets_in_range [OF this, of 0] obtain c where
      "r = ?cand c" "0 \<le> fst c \<and> fst c \<le> m \<and> 0 \<le> snd c \<and> snd c \<le> m"
      unfolding r_def m_def by blast
    then show "0 \<le> startS2 r \<and> startS2 r \<le> m \<and> 0 \<le> startS3 r \<and> startS3 r \<le> m
      \<and> offsets.diagnostics r = diag (startS2 r) (startS3 r)"
      by (simp add: candidate_sel diag_def)
  qed
  have D: "\<forall>o2 o3. score (diag o2 o3)
                 = threePDays (diag o2 o3) * 1000 + notTwoAfterPDays (diag o2 o3) * 10 + \<bar>o2\<bar> + \<bar>o3\<bar>
              \<and> (isPerfect (diag o2 o3)
                   \<longleftrightarrow> threePDays (diag o2 o3) = 0 \<and> notTwoAfterPDays (diag o2 o3) = 0)"
    unfolding diag_def using scoreOffsets_score [of W R I horizon 0] scoreOffsets_isPerfect [of W R I horizon]
    by simp
  from A B C D show ?thesis by blast
qed

text \<open>Two small runs of the solver, evaluated: one with a perfect pair, one without.\<close>

lemma example_perfect: "isPerfect (scoreOffsets 3 2 1 4 [0, 0, 2])"
  by code_simp

lemma example_search:
  "search 1 2 1 6 0 =
     Inr (Some \<lparr> startS2 = 0, startS3 = 1,
       diagnostics = \<lparr> firstPDay = 4, threePDays = 0, notTwoAfterPDays = 1, score = 11,
                       isPerfect = False \<rparr> \<rparr>)"
  by code_simp

lemma example_imperfect:
  "\<forall>o2 o3. 0 \<le> o2 \<and> o2 \<le> maxOffset 1 2 1 6 \<and> 0 \<le> o3 \<and> o3 \<le> maxOffset 1 2 1 6
                \<longrightarrow> \<not> isPerfect (scoreOffsets 1 2 1 6 [0, o2, o3])"
proof (intro allI impI)
  fix o2 o3 :: int
  assume "0 \<le> o2 \<and> o2 \<le> maxOffset 1 2 1 6 \<and> 0 \<le> o3 \<and> o3 \<le> maxOffset 1 2 1 6"
  then have "(o2, o3) \<in> set (List.product (candidates 1 2 1 6) (candidates 1 2 1 6))"
    using set_product_candidates [of "(o2, o3)" 1 2 1 6] by simp
  moreover have "\<forall>x \<in> set (List.product (candidates 1 2 1 6) (candidates 1 2 1 6)).
                   \<not> isPerfect (offsets.diagnostics (candidate 1 2 1 6 0 x))"
    using scan_Inr [OF example_search [unfolded search_scan]] by blast
  ultimately have "\<not> isPerfect (offsets.diagnostics (candidate 1 2 1 6 0 (o2, o3)))" by blast
  then show "\<not> isPerfect (scoreOffsets 1 2 1 6 [0, o2, o3])" by (simp add: candidate_sel)
qed

lemma example_best:
  "findBestOffsets 1 2 1 6 0 =
     \<lparr> startS2 = 0, startS3 = 1,
       diagnostics = \<lparr> firstPDay = 4, threePDays = 0, notTwoAfterPDays = 1, score = 11,
                       isPerfect = False \<rparr> \<rparr>"
  by (simp add: findBestOffsets_def example_search)

lemma example_first_score: "score (scoreOffsets 1 2 1 6 [0, 0, 0]) = 1020"
  by code_simp

theorem findBestOffsets_selection_witness:
  "isPerfect (scoreOffsets 3 2 1 4 [0, 0, 2])
   \<and> 2 \<le> maxOffset 3 2 1 4
   \<and> isPerfect (offsets.diagnostics (findBestOffsets 3 2 1 4 0))
   \<and> \<not> lex_less (0, 2) (startS2 (findBestOffsets 3 2 1 4 0), startS3 (findBestOffsets 3 2 1 4 0))
   \<and> \<not> (\<exists>o2 o3. 0 \<le> o2 \<and> o2 \<le> maxOffset 1 2 1 6 \<and> 0 \<le> o3 \<and> o3 \<le> maxOffset 1 2 1 6
               \<and> isPerfect (scoreOffsets 1 2 1 6 [0, o2, o3]))
   \<and> 0 \<le> maxOffset 1 2 1 6
   \<and> lex_less (0, 0) (startS2 (findBestOffsets 1 2 1 6 0), startS3 (findBestOffsets 1 2 1 6 0))
   \<and> score (offsets.diagnostics (findBestOffsets 1 2 1 6 0)) < score (scoreOffsets 1 2 1 6 [0, 0, 0])
   \<and> score (offsets.diagnostics (findBestOffsets 1 2 1 6 0)) = 11
   \<and> score (scoreOffsets 1 2 1 6 [0, 0, 0]) = 1020"
proof -
  have m1: "maxOffset 3 2 1 4 = 3" by (simp add: maxOffset_def)
  have m2: "maxOffset 1 2 1 6 = 5" by (simp add: maxOffset_def)
  have a: "0 \<le> (0::int) \<and> 0 \<le> maxOffset 3 2 1 4 \<and> 0 \<le> (2::int) \<and> 2 \<le> maxOffset 3 2 1 4
           \<and> isPerfect (scoreOffsets 3 2 1 4 [0, 0, 2])"
    using example_perfect m1 by simp
  have c1: "isPerfect (offsets.diagnostics (findBestOffsets 3 2 1 4 0))
     \<and> \<not> lex_less (0, 2) (startS2 (findBestOffsets 3 2 1 4 0), startS3 (findBestOffsets 3 2 1 4 0))"
    using findBestOffsets_selection [of 3 2 1 4] a by blast
  have l: "lex_less (0, 0) (startS2 (findBestOffsets 1 2 1 6 0), startS3 (findBestOffsets 1 2 1 6 0))"
    by (simp add: example_best lex_less_def)
  have r0: "0 \<le> (0::int) \<and> 0 \<le> maxOffset 1 2 1 6 \<and> 0 \<le> (0::int) \<and> 0 \<le> maxOffset 1 2 1 6"
    by (simp add: m2)
  have c2: "score (offsets.diagnostics (findBestOffsets 1 2 1 6 0)) < score (scoreOffsets 1 2 1 6 [0, 0, 0])"
    using findBestOffsets_selection [of 1 2 1 6] example_imperfect r0 l by blast
  have e: "\<not> (\<exists>o2 o3. 0 \<le> o2 \<and> o2 \<le> maxOffset 1 2 1 6 \<and> 0 \<le> o3 \<and> o3 \<le> maxOffset 1 2 1 6
               \<and> isPerfect (scoreOffsets 1 2 1 6 [0, o2, o3]))"
    using example_imperfect by blast
  have s11: "score (offsets.diagnostics (findBestOffsets 1 2 1 6 0)) = 11"
    by (simp add: example_best)
  from a c1 e r0 l c2 s11 example_first_score show ?thesis by blast
qed

section \<open>Clamping at the build boundary\<close>

lemma clampInt_range: "mn \<le> mx \<Longrightarrow> mn \<le> clampInt n mn mx \<and> clampInt n mn mx \<le> mx"
  by (simp add: clampInt_def Let_def)

lemma clampInt_NonFinite: "mn \<le> mx \<Longrightarrow> clampInt NonFinite mn mx = mn"
  by (simp add: clampInt_def)

lemma clampInt_Finite: "clampInt (Finite r) mn mx = max mn (min mx \<lfloor>r\<rfloor>)"
  by (simp add: clampInt_def)

lemma clampInt_idem:
  "mn \<le> mx \<Longrightarrow> clampInt (Finite (of_int (clampInt n mn mx))) mn mx = clampInt n mn mx"
  by (cases n) (simp_all add: clampInt_def)

lemma buildSchedule_params:
  "params (buildSchedule p) =
     \<lparr> param_W = clampInt (raw_W p) 1 60, param_R = clampInt (raw_R p) 2 60,
       param_I = clampInt (raw_I p) 1 5,
       param_totalPerforationDays = clampInt (raw_totalPerforationDays p) 1 5000 \<rparr>"
  by (simp add: buildSchedule_def Let_def)

lemma buildSchedule_cong:
  assumes "clampInt (raw_W p) 1 60 = clampInt (raw_W q) 1 60"
    and "clampInt (raw_R p) 2 60 = clampInt (raw_R q) 2 60"
    and "clampInt (raw_I p) 1 5 = clampInt (raw_I q) 1 5"
    and "clampInt (raw_totalPerforationDays p) 1 5000 = clampInt (raw_totalPerforationDays q) 1 5000"
  shows "buildSchedule p = buildSchedule q"
  unfolding buildSchedule_def assms ..

text \<open>
  Claim C7 (permissive clamping). \<open>buildSchedule\<close> is a total function: it has no error
  branch and returns a schedule for every argument. The parameters it reports are the
  clamped ones, \<open>W\<close> in \<open>[1, 60]\<close>, \<open>R\<close> in \<open>[2, 60]\<close>, \<open>I\<close> in \<open>[1, 5]\<close> and
  \<open>totalPerforationDays\<close> in \<open>[1, 5000]\<close>; an input that is not a finite number is
  replaced by the minimum of its range, a finite one by its floor clamped to the range;
  and the whole result depends on the argument through the clamped values only: building
  from the clamped values gives the same schedule.
\<close>

theorem buildSchedule_clamps:
  "param_W (params (buildSchedule p)) = clampInt (raw_W p) 1 60
   \<and> param_R (params (buildSchedule p)) = clampInt (raw_R p) 2 60
   \<and> param_I (params (buildSchedule p)) = clampInt (raw_I p) 1 5
   \<and> param_totalPerforationDays (params (buildSchedule p)) = clampInt (raw_totalPerforationDays p) 1 5000
   \<and> 1 \<le> param_W (params (buildSchedule p)) \<and> param_W (params (buildSchedule p)) \<le> 60
   \<and> 2 \<le> param_R (params (buildSchedule p)) \<and> param_R (params (buildSchedule p)) \<le> 60
   \<and> 1 \<le> param_I (params (buildSchedule p)) \<and> param_I (params (buildSchedule p)) \<le> 5
   \<and> 1 \<le> param_totalPerforationDays (params (buildSchedule p))
   \<and> param_totalPerforationDays (params (buildSchedule p)) \<le> 5000
   \<and> (raw_W p = NonFinite \<longrightarrow> param_W (params (buildSchedule p)) = 1)
   \<and> (raw_R p = NonFinite \<longrightarrow> param_R (params (buildSchedule p)) = 2)
   \<and> (raw_I p = NonFinite \<longrightarrow> param_I (params (buildSchedule p)) = 1)
   \<and> (raw_totalPerforationDays p = NonFinite \<longrightarrow>
         param_totalPerforationDays (params (buildSchedule p)) = 1)
   \<and> (\<forall>r. raw_W p = Finite r \<longrightarrow> param_W (params (buildSchedule p)) = max 1 (min 60 \<lfloor>r\<rfloor>))
   \<and> (\<forall>r. raw_R p = Finite r \<longrightarrow> param_R (params (buildSchedule p)) = max 2 (min 60 \<lfloor>r\<rfloor>))
   \<and> (\<forall>r. raw_I p = Finite r \<longrightarrow> param_I (params (buildSchedule p)) = max 1 (min 5 \<lfloor>r\<rfloor>))
   \<and> (\<forall>r. raw_totalPerforationDays p = Finite r \<longrightarrow>
         param_totalPerforationDays (params (buildSchedule p)) = max 1 (min 5000 \<lfloor>r\<rfloor>))
   \<and> buildSchedule p =
       buildSchedule \<lparr> raw_W = Finite (of_int (param_W (params (buildSchedule p)))),
                       raw_R = Finite (of_int (param_R (params (buildSchedule p)))),
                       raw_I = Finite (of_int (param_I (params (buildSchedule p)))),
                       raw_totalPerforationDays =
                         Finite (of_int (param_totalPerforationDays (params (buildSchedule p)))) \<rparr>"
proof -
  have w: "param_W (params (buildSchedule p)) = clampInt (raw_W p) 1 60"
    and r: "param_R (params (buildSchedule p)) = clampInt (raw_R p) 2 60"
    and i: "param_I (params (buildSchedule p)) = clampInt (raw_I p) 1 5"
    and t: "param_totalPerforationDays (params (buildSchedule p)) = clampInt (raw_totalPerforationDays p) 1 5000"
    by (simp_all add: buildSchedule_params)
  have rw: "1 \<le> clampInt (raw_W p) 1 60 \<and> clampInt (raw_W p) 1 60 \<le> 60"
    by (rule clampInt_range) simp
  have rr: "2 \<le> clampInt (raw_R p) 2 60 \<and> clampInt (raw_R p) 2 60 \<le> 60"
    by (rule clampInt_range) simp
  have ri: "1 \<le> clampInt (raw_I p) 1 5 \<and> clampInt (raw_I p) 1 5 \<le> 5"
    by (rule clampInt_range) simp
  have rt: "1 \<le> clampInt (raw_totalPerforationDays p) 1 5000 \<and> clampInt (raw_totalPerforationDays p) 1 5000 \<le> 5000"
    by (rule clampInt_range) simp
  have nf: "(raw_W p = NonFinite \<longrightarrow> clampInt (raw_W p) 1 60 = 1)
          \<and> (raw_R p = NonFinite \<longrightarrow> clampInt (raw_R p) 2 60 = 2)
          \<and> (raw_I p = NonFinite \<longrightarrow> clampInt (raw_I p) 1 5 = 1)
          \<and> (raw_totalPerforationDays p = NonFinite \<longrightarrow> clampInt (raw_totalPerforationDays p) 1 5000 = 1)"
    by (simp add: clampInt_NonFinite)
  have fin: "(\<forall>r. raw_W p = Finite r \<longrightarrow> clampInt (raw_W p) 1 60 = max 1 (min 60 \<lfloor>r\<rfloor>))
          \<and> (\<forall>r. raw_R p = Finite r \<longrightarrow> clampInt (raw_R p) 2 60 = max 2 (min 60 \<lfloor>r\<rfloor>))
          \<and> (\<forall>r. raw_I p = Finite r \<longrightarrow> clampInt (raw_I p) 1 5 = max 1 (min 5 \<lfloor>r\<rfloor>))
          \<and> (\<forall>r. raw_totalPerforationDays p = Finite r \<longrightarrow>
                 clampInt (raw_totalPerforationDays p) 1 5000 = max 1 (min 5000 \<lfloor>r\<rfloor>))"
    by (simp add: clampInt_Finite)
  have again: "buildSchedule p =
       buildSchedule \<lparr> raw_W = Finite (of_int (clampInt (raw_W p) 1 60)),
                       raw_R = Finite (of_int (clampInt (raw_R p) 2 60)),
                       raw_I = Finite (of_int (clampInt (raw_I p) 1 5)),
                       raw_totalPerforationDays =
                         Finite (of_int (clampInt (raw_totalPerforationDays p) 1 5000)) \<rparr>"
    by (rule buildSchedule_cong) (simp_all add: clampInt_idem)
  show ?thesis
    unfolding w r i t using rw rr ri rt nf fin again by blast
qed

theorem buildSchedule_clamps_witness:
  "raw_W \<lparr> raw_W = NonFinite, raw_R = NonFinite, raw_I = NonFinite,
           raw_totalPerforationDays = NonFinite \<rparr> = NonFinite
   \<and> params (buildSchedule \<lparr> raw_W = NonFinite, raw_R = NonFinite, raw_I = NonFinite,
                              raw_totalPerforationDays = NonFinite \<rparr>)
       = \<lparr> param_W = 1, param_R = 2, param_I = 1, param_totalPerforationDays = 1 \<rparr>
   \<and> raw_W \<lparr> raw_W = Finite 1000, raw_R = Finite (- 3), raw_I = Finite (7 / 2),
             raw_totalPerforationDays = Finite 90 \<rparr> = Finite 1000
   \<and> params (buildSchedule \<lparr> raw_W = Finite 1000, raw_R = Finite (- 3), raw_I = Finite (7 / 2),
                              raw_totalPerforationDays = Finite 90 \<rparr>)
       = \<lparr> param_W = 60, param_R = 2, param_I = 3, param_totalPerforationDays = 90 \<rparr>"
proof -
  let ?p = "\<lparr> raw_W = NonFinite, raw_R = NonFinite, raw_I = NonFinite,
              raw_totalPerforationDays = NonFinite \<rparr>"
  let ?q = "\<lparr> raw_W = Finite 1000, raw_R = Finite (- 3), raw_I = Finite (7 / 2),
              raw_totalPerforationDays = Finite 90 \<rparr>"
  have a: "param_W (params (buildSchedule ?p)) = 1 \<and> param_R (params (buildSchedule ?p)) = 2
         \<and> param_I (params (buildSchedule ?p)) = 1
         \<and> param_totalPerforationDays (params (buildSchedule ?p)) = 1"
    using buildSchedule_clamps [of ?p] by simp
  note th = buildSchedule_clamps [of ?q]
  have "\<forall>r. raw_W ?q = Finite r \<longrightarrow> param_W (params (buildSchedule ?q)) = max 1 (min 60 \<lfloor>r\<rfloor>)"
    using th by blast
  from this [rule_format, of 1000]
  have bw: "param_W (params (buildSchedule ?q)) = max 1 (min 60 \<lfloor>1000::real\<rfloor>)" by simp
  have "\<forall>r. raw_R ?q = Finite r \<longrightarrow> param_R (params (buildSchedule ?q)) = max 2 (min 60 \<lfloor>r\<rfloor>)"
    using th by blast
  from this [rule_format, of "- 3"]
  have br: "param_R (params (buildSchedule ?q)) = max 2 (min 60 \<lfloor>- 3::real\<rfloor>)" by simp
  have "\<forall>r. raw_I ?q = Finite r \<longrightarrow> param_I (params (buildSchedule ?q)) = max 1 (min 5 \<lfloor>r\<rfloor>)"
    using th by blast
  from this [rule_format, of "7 / 2"]
  have bi: "param_I (params (buildSchedule ?q)) = max 1 (min 5 \<lfloor>7 / 2::real\<rfloor>)" by simp
  have "\<forall>r. raw_totalPerforationDays ?q = Finite r \<longrightarrow>
          param_totalPerforationDays (params (buildSchedule ?q)) = max 1 (min 5000 \<lfloor>r\<rfloor>)"
    using th by blast
  from this [rule_format, of 90]
  have bt: "param_totalPerforationDays (params (buildSchedule ?q)) = max 1 (min 5000 \<lfloor>90::real\<rfloor>)"
    by simp
  from bw br bi bt have b: "param_W (params (buildSchedule ?q)) = 60 \<and> param_R (params (buildSchedule ?q)) = 2
         \<and> param_I (params (buildSchedule ?q)) = 3
         \<and> param_totalPerforationDays (params (buildSchedule ?q)) = 90"
    by simp
  have "params (buildSchedule ?p) = \<lparr> param_W = 1, param_R = 2, param_I = 1, param_totalPerforationDays = 1 \<rparr>"
    using a by (cases "params (buildSchedule ?p)") simp
  moreover have "params (buildSchedule ?q) = \<lparr> param_W = 60, param_R = 2, param_I = 3, param_totalPerforationDays = 90 \<rparr>"
    using b by (cases "params (buildSchedule ?q)") simp
  ultimately show ?thesis by simp
qed

section \<open>The solver inside the builder\<close>

lemma clamped_horizon:
  fixes W R I T :: int
  assumes "1 \<le> W" "2 \<le> R" "1 \<le> I" "1 \<le> T"
  shows "45 \<le> T + (W + R + I) * 6 + 20"
  using assms by simp

lemma clamped_maxOffset:
  assumes "1 \<le> W" "2 \<le> R" "1 \<le> I" "1 \<le> T"
  shows "32 \<le> maxOffset W R I (nat (T + (W + R + I) * 6 + 20))"
  using assms by (simp add: maxOffset_def)

text \<open>
  Claim C10 (the fallback of the solver is dead code under \<open>buildSchedule\<close>). For every
  argument of \<open>buildSchedule\<close>, with the clamped values and the horizon computed from
  them: the horizon is at least \<open>1\<close>; \<open>maxOffset = min(horizon - 1, (W + R + I) * 3 + 20)\<close>
  is at least \<open>0\<close>; the list of candidates is not empty; the loops do not end with
  \<open>best = null\<close>, so the right-hand side of \<open>??\<close> is not taken; and the two offsets
  returned, which are the offsets of the schedule, lie in \<open>[0, maxOffset]\<close>.
\<close>

theorem fallback_unreachable:
  "(let W = clampInt (raw_W p) 1 60;
        R = clampInt (raw_R p) 2 60;
        I = clampInt (raw_I p) 1 5;
        T = clampInt (raw_totalPerforationDays p) 1 5000;
        horizon = T + (W + R + I) * 6 + 20;
        m = maxOffset W R I (nat horizon);
        best = findBestOffsets W R I (nat horizon) 0
    in 1 \<le> horizon
       \<and> m = min (horizon - 1) ((W + R + I) * 3 + 20)
       \<and> 0 \<le> m
       \<and> candidates W R I (nat horizon) \<noteq> []
       \<and> search W R I (nat horizon) 0 \<noteq> Inr None
       \<and> 0 \<le> startS2 best \<and> startS2 best \<le> m
       \<and> 0 \<le> startS3 best \<and> startS3 best \<le> m
       \<and> starts (buildSchedule p) = [0, startS2 best, startS3 best])"
proof -
  define W where "W = clampInt (raw_W p) 1 60"
  define R where "R = clampInt (raw_R p) 2 60"
  define I where "I = clampInt (raw_I p) 1 5"
  define T where "T = clampInt (raw_totalPerforationDays p) 1 5000"
  define horizon where "horizon = T + (W + R + I) * 6 + 20"
  have w: "1 \<le> W" unfolding W_def using clampInt_range [of 1 60] by simp
  have r: "2 \<le> R" unfolding R_def using clampInt_range [of 2 60] by simp
  have i: "1 \<le> I" unfolding I_def using clampInt_range [of 1 5] by simp
  have t: "1 \<le> T" unfolding T_def using clampInt_range [of 1 5000] by simp
  have h: "45 \<le> horizon" unfolding horizon_def using w r i t by (rule clamped_horizon)
  have m: "32 \<le> maxOffset W R I (nat horizon)"
    unfolding horizon_def using w r i t by (rule clamped_maxOffset)
  have m0: "0 \<le> maxOffset W R I (nat horizon)" using m by simp
  have me: "maxOffset W R I (nat horizon) = min (horizon - 1) ((W + R + I) * 3 + 20)"
    using h by (simp add: maxOffset_def)
  from findBestOffsets_in_range [OF m0, of 0] obtain c where
    f: "findBestOffsets W R I (nat horizon) 0 = candidate W R I (nat horizon) 0 c"
    and s: "search W R I (nat horizon) 0 \<noteq> Inr None"
    and rg: "0 \<le> fst c \<and> fst c \<le> maxOffset W R I (nat horizon)
           \<and> 0 \<le> snd c \<and> snd c \<le> maxOffset W R I (nat horizon)"
    by blast
  have st: "starts (buildSchedule p) =
      [0, startS2 (findBestOffsets W R I (nat horizon) 0), startS3 (findBestOffsets W R I (nat horizon) 0)]"
    by (simp add: buildSchedule_def Let_def W_def R_def I_def T_def horizon_def)
  have "1 \<le> horizon
       \<and> maxOffset W R I (nat horizon) = min (horizon - 1) ((W + R + I) * 3 + 20)
       \<and> 0 \<le> maxOffset W R I (nat horizon)
       \<and> candidates W R I (nat horizon) \<noteq> []
       \<and> search W R I (nat horizon) 0 \<noteq> Inr None
       \<and> 0 \<le> startS2 (findBestOffsets W R I (nat horizon) 0)
       \<and> startS2 (findBestOffsets W R I (nat horizon) 0) \<le> maxOffset W R I (nat horizon)
       \<and> 0 \<le> startS3 (findBestOffsets W R I (nat horizon) 0)
       \<and> startS3 (findBestOffsets W R I (nat horizon) 0) \<le> maxOffset W R I (nat horizon)
       \<and> starts (buildSchedule p) =
           [0, startS2 (findBestOffsets W R I (nat horizon) 0),
               startS3 (findBestOffsets W R I (nat horizon) 0)]"
    using h me m0 candidates_nonempty [OF m0] s rg st
    by (simp add: f candidate_sel)
  then show ?thesis
    unfolding Let_def W_def R_def I_def T_def horizon_def .
qed

section \<open>The validator\<close>

lemma key_invalid_iff:
  "label a @ ''-'' @ label b \<in> set invalidPairs \<longleftrightarrow>
     (a, b) \<in> {(STATES_S, STATES_S), (STATES_S, STATES_B), (STATES_B, STATES_S),
                (STATES_I, STATES_S), (STATES_D, STATES_I)}"
  by (cases a; cases b) (simp_all add: invalidPairs_def)

lemma key_inject: "label a @ ''-'' @ label b = label a' @ ''-'' @ label b' \<longleftrightarrow> a = a' \<and> b = b'"
  by (cases a; cases a'; cases b; cases b') simp_all

lemma pattern_step_cases:
  "pattern_step nms grid s d acc =
     (if grid ! s ! (d - 1) \<noteq> STATES_EMPTY \<and> grid ! s ! d \<noteq> STATES_EMPTY
         \<and> label (grid ! s ! (d - 1)) @ ''-'' @ label (grid ! s ! d) \<in> set invalidPairs
      then acc @ [InvalidPattern (name_at nms s) (d - 1) d
                    (label (grid ! s ! (d - 1)) @ ''-'' @ label (grid ! s ! d))]
      else acc)"
  by (simp add: pattern_step_def Let_def)

text \<open>The alerts of one row: those already there and one for every forbidden pair of the row.\<close>

lemma set_fold_pattern_step:
  "set (fold (pattern_step nms grid s) ds acc) =
     set acc \<union> {InvalidPattern (name_at nms s) (d - 1) d
                    (label (grid ! s ! (d - 1)) @ ''-'' @ label (grid ! s ! d)) | d.
                  d \<in> set ds \<and> grid ! s ! (d - 1) \<noteq> STATES_EMPTY \<and> grid ! s ! d \<noteq> STATES_EMPTY
                  \<and> label (grid ! s ! (d - 1)) @ ''-'' @ label (grid ! s ! d) \<in> set invalidPairs}"
proof (induction ds arbitrary: acc)
  case Nil
  show ?case by simp
next
  case (Cons d ds)
  show ?case
    unfolding fold_Cons comp_apply Cons.IH
    by (subst pattern_step_cases) auto
qed

lemma set_fold_pattern_row:
  "set (fold (pattern_row nms grid) ss acc) =
     set acc \<union> {InvalidPattern (name_at nms s) (d - 1) d
                    (label (grid ! s ! (d - 1)) @ ''-'' @ label (grid ! s ! d)) | s d.
                  s \<in> set ss \<and> 1 \<le> d \<and> d < length (grid ! s)
                  \<and> grid ! s ! (d - 1) \<noteq> STATES_EMPTY \<and> grid ! s ! d \<noteq> STATES_EMPTY
                  \<and> label (grid ! s ! (d - 1)) @ ''-'' @ label (grid ! s ! d) \<in> set invalidPairs}"
proof (induction ss arbitrary: acc)
  case Nil
  show ?case by simp
next
  case (Cons s ss)
  show ?case
    unfolding fold_Cons comp_apply Cons.IH pattern_row_def [of nms grid s] set_fold_pattern_step
    by auto
qed

text \<open>The two count loops push no pattern alert.\<close>

lemma fold_three_step_no_pattern:
  "InvalidPattern n d' d k \<in> set (fold (three_step pc) ds acc) \<longleftrightarrow> InvalidPattern n d' d k \<in> set acc"
  by (induction ds arbitrary: acc) (simp_all add: three_step_def)

lemma fold_under_step_no_pattern:
  "InvalidPattern n d' d k \<in> set (fold (under_step pc) ds acc) \<longleftrightarrow> InvalidPattern n d' d k \<in> set acc"
  by (induction ds arbitrary: acc) (simp_all add: under_step_def Let_def)

lemma validateSchedule_pattern_iff:
  "InvalidPattern n d' d k \<in> set (validateSchedule sch) \<longleftrightarrow>
     (\<exists>s. s < length (states sch) \<and> 1 \<le> d \<and> d < length (states sch ! s)
        \<and> states sch ! s ! (d - 1) \<noteq> STATES_EMPTY \<and> states sch ! s ! d \<noteq> STATES_EMPTY
        \<and> label (states sch ! s ! (d - 1)) @ ''-'' @ label (states sch ! s ! d) \<in> set invalidPairs
        \<and> n = name_at (names sch) s \<and> d' = d - 1
        \<and> k = label (states sch ! s ! (d - 1)) @ ''-'' @ label (states sch ! s ! d))"
proof -
  have "InvalidPattern n d' d k \<notin> set (fold (three_step (pCount sch)) [0..<length (pCount sch)] [])"
    by (simp add: fold_three_step_no_pattern)
  then have "InvalidPattern n d' d k \<notin>
      set (if findIndex (\<lambda>x. x = 2) (pCount sch) \<noteq> - 1
           then fold (under_step (pCount sch)) [nat (findIndex (\<lambda>x. x = 2) (pCount sch))..<length (pCount sch)]
                  (fold (three_step (pCount sch)) [0..<length (pCount sch)] [])
           else fold (three_step (pCount sch)) [0..<length (pCount sch)] [])"
    by (simp add: fold_under_step_no_pattern)
  then show ?thesis
    unfolding validateSchedule_def Let_def set_fold_pattern_row by auto
qed


text \<open>
  Claim C6 (transition check of the validator). For every schedule, every unit \<open>s\<close> and
  every pair of adjacent days \<open>d - 1\<close>, \<open>d\<close> of its row with states \<open>a\<close> and \<open>b\<close>: when
  neither is EMPTY, the alert that names the unit, the days \<open>d - 1\<close> and \<open>d\<close> and the key
  \<open>a-b\<close> is among the alerts if and only if \<open>(a, b)\<close> is one of \<open>S-S\<close>, \<open>S-B\<close>, \<open>B-S\<close>,
  \<open>I-S\<close>, \<open>D-I\<close>, and the loop body pushes exactly that alert or nothing; when one of
  them is EMPTY the loop body pushes nothing and no such alert is among the alerts.
\<close>

theorem validateSchedule_transitions:
  assumes "s < length (states sch)" and "1 \<le> d" and "d < length (states sch ! s)"
  defines "a \<equiv> states sch ! s ! (d - 1)" and "b \<equiv> states sch ! s ! d"
  defines "forbidden \<equiv> {(STATES_S, STATES_S), (STATES_S, STATES_B), (STATES_B, STATES_S),
                          (STATES_I, STATES_S), (STATES_D, STATES_I)}"
  shows "(a \<noteq> STATES_EMPTY \<and> b \<noteq> STATES_EMPTY \<longrightarrow>
            (InvalidPattern (name_at (names sch) s) (d - 1) d (label a @ ''-'' @ label b)
               \<in> set (validateSchedule sch) \<longleftrightarrow> (a, b) \<in> forbidden)
          \<and> pattern_step (names sch) (states sch) s d alerts =
              (if (a, b) \<in> forbidden
               then alerts @ [InvalidPattern (name_at (names sch) s) (d - 1) d (label a @ ''-'' @ label b)]
               else alerts))
       \<and> (a = STATES_EMPTY \<or> b = STATES_EMPTY \<longrightarrow>
            pattern_step (names sch) (states sch) s d alerts = alerts
          \<and> InvalidPattern (name_at (names sch) s) (d - 1) d (label a @ ''-'' @ label b)
               \<notin> set (validateSchedule sch))"
proof (intro conjI impI)
  assume ne: "a \<noteq> STATES_EMPTY \<and> b \<noteq> STATES_EMPTY"
  show "InvalidPattern (name_at (names sch) s) (d - 1) d (label a @ ''-'' @ label b)
               \<in> set (validateSchedule sch) \<longleftrightarrow> (a, b) \<in> forbidden"
  proof
    assume "InvalidPattern (name_at (names sch) s) (d - 1) d (label a @ ''-'' @ label b)
               \<in> set (validateSchedule sch)"
    then obtain s' where
      "label (states sch ! s' ! (d - 1)) @ ''-'' @ label (states sch ! s' ! d) \<in> set invalidPairs"
      "label a @ ''-'' @ label b = label (states sch ! s' ! (d - 1)) @ ''-'' @ label (states sch ! s' ! d)"
      unfolding validateSchedule_pattern_iff by blast
    then have "label a @ ''-'' @ label b \<in> set invalidPairs" by simp
    then show "(a, b) \<in> forbidden" unfolding forbidden_def key_invalid_iff .
  next
    assume "(a, b) \<in> forbidden"
    then have "label a @ ''-'' @ label b \<in> set invalidPairs"
      unfolding forbidden_def key_invalid_iff .
    then show "InvalidPattern (name_at (names sch) s) (d - 1) d (label a @ ''-'' @ label b)
               \<in> set (validateSchedule sch)"
      unfolding validateSchedule_pattern_iff using assms(1-3) ne
      by (intro exI [of _ s]) (simp add: a_def b_def)
  qed
  show "pattern_step (names sch) (states sch) s d alerts =
              (if (a, b) \<in> forbidden
               then alerts @ [InvalidPattern (name_at (names sch) s) (d - 1) d (label a @ ''-'' @ label b)]
               else alerts)"
    using ne unfolding pattern_step_cases forbidden_def key_invalid_iff [symmetric] a_def b_def
    by simp
next
  assume e: "a = STATES_EMPTY \<or> b = STATES_EMPTY"
  show "pattern_step (names sch) (states sch) s d alerts = alerts"
    using e unfolding pattern_step_cases a_def b_def by auto
  have "(a, b) \<notin> {(STATES_S, STATES_S), (STATES_S, STATES_B), (STATES_B, STATES_S),
                (STATES_I, STATES_S), (STATES_D, STATES_I)}"
    using e by auto
  then have nk: "label a @ ''-'' @ label b \<notin> set invalidPairs"
    unfolding key_invalid_iff .
  show "InvalidPattern (name_at (names sch) s) (d - 1) d (label a @ ''-'' @ label b)
               \<notin> set (validateSchedule sch)"
  proof
    assume "InvalidPattern (name_at (names sch) s) (d - 1) d (label a @ ''-'' @ label b)
               \<in> set (validateSchedule sch)"
    then obtain s' where
      "label (states sch ! s' ! (d - 1)) @ ''-'' @ label (states sch ! s' ! d) \<in> set invalidPairs"
      "label a @ ''-'' @ label b = label (states sch ! s' ! (d - 1)) @ ''-'' @ label (states sch ! s' ! d)"
      unfolding validateSchedule_pattern_iff by blast
    then show False using nk by simp
  qed
qed

lemma example_schedule_alerts:
  "validateSchedule example_schedule = [InvalidPattern ''S1'' 0 1 ''S-S'']"
  by code_simp

theorem validateSchedule_transitions_witness:
  "(0::nat) < length (states example_schedule) \<and> (1::nat) \<le> 1
   \<and> 1 < length (states example_schedule ! 0)
   \<and> states example_schedule ! 0 ! (1 - 1) = STATES_S \<and> states example_schedule ! 0 ! 1 = STATES_S
   \<and> InvalidPattern ''S1'' 0 1 ''S-S'' \<in> set (validateSchedule example_schedule)
   \<and> (1::nat) < length (states example_schedule) \<and> 1 < length (states example_schedule ! 1)
   \<and> states example_schedule ! 1 ! (1 - 1) = STATES_EMPTY
   \<and> InvalidPattern ''S2'' 0 1 ''--S'' \<notin> set (validateSchedule example_schedule)
   \<and> (2::nat) \<le> 2 \<and> 2 < length (states example_schedule ! 0)
   \<and> states example_schedule ! 0 ! 2 = STATES_I
   \<and> InvalidPattern ''S1'' 1 2 ''S-I'' \<notin> set (validateSchedule example_schedule)
   \<and> validateSchedule example_schedule = [InvalidPattern ''S1'' 0 1 ''S-S'']"
proof -
  have a: "InvalidPattern ''S1'' 0 1 ''S-S'' \<in> set (validateSchedule example_schedule)"
    using validateSchedule_transitions [of 0 example_schedule 1]
    by (simp add: example_schedule_def name_at_def)
  have b: "InvalidPattern ''S2'' 0 1 ''--S'' \<notin> set (validateSchedule example_schedule)"
    using validateSchedule_transitions [of 1 example_schedule 1]
    by (simp add: example_schedule_def name_at_def)
  have c: "InvalidPattern ''S1'' 1 2 ''S-I'' \<notin> set (validateSchedule example_schedule)"
    using validateSchedule_transitions [of 0 example_schedule 2]
    by (simp add: example_schedule_def name_at_def)
  show ?thesis
    using a b c example_schedule_alerts by (simp add: example_schedule_def)
qed

section \<open>The matrix loops\<close>

lemma upt_3: "[0..<3] = [0, 1, 2]"
  by (simp add: upt_rec)

lemma producing_bounds: "0 \<le> producing W R I sts d \<and> producing W R I sts d \<le> 3"
proof -
  have "length (filter (\<lambda>s. getSupervisorStateAtDay (int d) (sts ! s) W R I = STATES_P) [0..<3])
          \<le> length [0..<3::nat]"
    by (rule length_filter_le)
  then show ?thesis by (simp add: producing_def)
qed

lemma build_day_step:
  assumes "length grid = 3" and "d < length pc"
  shows "build_day W R I sts d (grid, pc) =
     (map (\<lambda>s. (grid ! s)[d := getSupervisorStateAtDay (int d) (sts ! s) W R I]) [0..<3],
      pc[d := pc ! d + producing W R I sts d])"
proof -
  from assms(1) obtain r0 r1 r2 where g: "grid = [r0, r1, r2]"
    by (auto simp: length_Suc_conv numeral_3_eq_3)
  show ?thesis
    using assms(2)
    by (simp add: build_day_def build_unit_def upt_3 g producing_def Let_def add.commute)
qed

lemma score_day_step:
  assumes "d < length pc"
  shows "score_day W R I sts d pc = pc[d := pc ! d + producing W R I sts d]"
  using assms
  by (simp add: score_day_def score_unit_def upt_3 producing_def Let_def add.commute)


lemma update_prefix:
  assumes "n < length xs"
  shows "(map f [0..<n] @ drop n xs)[n := f n] = map f [0..<Suc n] @ drop (Suc n) xs"
proof -
  have "drop n xs = xs ! n # drop (Suc n) xs"
    using assms by (simp add: Cons_nth_drop_Suc)
  then show ?thesis by (simp add: list_update_append)
qed

text \<open>After the first \<open>n\<close> days of the matrix loop of \<open>buildSchedule\<close>.\<close>

lemma fold_build_day:
  assumes "length grid = 3" and "\<forall>s<3. length (grid ! s) = h" and "length pc = h" and "n \<le> h"
  shows "fold (build_day W R I sts) [0..<n] (grid, pc) =
     (map (\<lambda>s. map (\<lambda>d. getSupervisorStateAtDay (int d) (sts ! s) W R I) [0..<n] @ drop n (grid ! s)) [0..<3],
      map (\<lambda>d. pc ! d + producing W R I sts d) [0..<n] @ drop n pc)"
  using assms(4)
proof (induction n)
  case 0
  have "grid = map (\<lambda>s. grid ! s) [0..<3]"
    using assms(1) by (intro nth_equalityI) simp_all
  then show ?case by simp
next
  case (Suc n)
  let ?st = "\<lambda>s d. getSupervisorStateAtDay (int d) (sts ! s) W R I"
  let ?g = "map (\<lambda>s. map (?st s) [0..<n] @ drop n (grid ! s)) [0..<3]"
  let ?pc = "map (\<lambda>d. pc ! d + producing W R I sts d) [0..<n] @ drop n pc"
  have n: "n < h" using Suc.prems by simp
  have IH: "fold (build_day W R I sts) [0..<n] (grid, pc) = (?g, ?pc)"
    using Suc.IH n by simp
  have lg: "length ?g = 3" by simp
  have lpc: "n < length ?pc" using n assms(3) by simp
  have pcn: "?pc ! n = pc ! n" using n assms(3) by (simp add: nth_append)
  have rows: "map (\<lambda>s. (?g ! s)[n := ?st s n]) [0..<3]
            = map (\<lambda>s. map (?st s) [0..<Suc n] @ drop (Suc n) (grid ! s)) [0..<3]"
  proof (rule map_cong [OF refl])
    fix s assume "s \<in> set [0..<3::nat]"
    then have s: "s < 3" by simp
    then have "?g ! s = map (?st s) [0..<n] @ drop n (grid ! s)" by simp
    moreover have "n < length (grid ! s)" using assms(2) s n by simp
    ultimately show "(?g ! s)[n := ?st s n] = map (?st s) [0..<Suc n] @ drop (Suc n) (grid ! s)"
      using update_prefix [of n "grid ! s" "?st s"] by simp
  qed
  have cnt: "?pc[n := ?pc ! n + producing W R I sts n]
           = map (\<lambda>d. pc ! d + producing W R I sts d) [0..<Suc n] @ drop (Suc n) pc"
    unfolding pcn using update_prefix [of n pc "\<lambda>d. pc ! d + producing W R I sts d"] n assms(3)
    by simp
  have "fold (build_day W R I sts) [0..<Suc n] (grid, pc) = build_day W R I sts n (?g, ?pc)"
    using IH by simp
  also have "\<dots> = (map (\<lambda>s. (?g ! s)[n := ?st s n]) [0..<3], ?pc[n := ?pc ! n + producing W R I sts n])"
    using lg lpc by (rule build_day_step)
  finally show ?case unfolding rows cnt .
qed

lemma build_grid_eq:
  assumes "length nms = 3"
  shows "build_grid W R I h sts nms =
     (map (\<lambda>s. map (\<lambda>d. getSupervisorStateAtDay (int d) (sts ! s) W R I) [0..<h]) [0..<3],
      map (producing W R I sts) [0..<h])"
proof -
  have "fold (build_day W R I sts) [0..<h]
          (map (\<lambda>_. replicate h STATES_EMPTY) nms, replicate h 0) =
     (map (\<lambda>s. map (\<lambda>d. getSupervisorStateAtDay (int d) (sts ! s) W R I) [0..<h]
             @ drop h (map (\<lambda>_. replicate h STATES_EMPTY) nms ! s)) [0..<3],
      map (\<lambda>d. replicate h 0 ! d + producing W R I sts d) [0..<h] @ drop h (replicate h 0))"
    using assms by (intro fold_build_day [where h = h]) simp_all
  moreover have "map (\<lambda>s. map (\<lambda>d. getSupervisorStateAtDay (int d) (sts ! s) W R I) [0..<h]
             @ drop h (map (\<lambda>_. replicate h STATES_EMPTY) nms ! s)) [0..<3]
        = map (\<lambda>s. map (\<lambda>d. getSupervisorStateAtDay (int d) (sts ! s) W R I) [0..<h]) [0..<3]"
    using assms by (intro map_cong [OF refl]) simp
  moreover have "map (\<lambda>d. replicate h 0 ! d + producing W R I sts d) [0..<h] @ drop h (replicate h 0)
        = map (producing W R I sts) [0..<h]"
    by (simp cong: map_cong)
  ultimately show ?thesis by (simp only: build_grid_def)
qed

text \<open>The first loop of \<open>scoreOffsets\<close> computes the same counts.\<close>

lemma fold_score_day:
  assumes "length pc = h" and "n \<le> h"
  shows "fold (score_day W R I sts) [0..<n] pc =
           map (\<lambda>d. pc ! d + producing W R I sts d) [0..<n] @ drop n pc"
  using assms(2)
proof (induction n)
  case 0
  show ?case by simp
next
  case (Suc n)
  let ?pc = "map (\<lambda>d. pc ! d + producing W R I sts d) [0..<n] @ drop n pc"
  have n: "n < h" using Suc.prems by simp
  have IH: "fold (score_day W R I sts) [0..<n] pc = ?pc" using Suc.IH n by simp
  have lpc: "n < length ?pc" using n assms(1) by simp
  have pcn: "?pc ! n = pc ! n" using n assms(1) by (simp add: nth_append)
  have "fold (score_day W R I sts) [0..<Suc n] pc = score_day W R I sts n ?pc"
    using IH by simp
  also have "\<dots> = ?pc[n := ?pc ! n + producing W R I sts n]"
    using lpc by (rule score_day_step)
  also have "\<dots> = map (\<lambda>d. pc ! d + producing W R I sts d) [0..<Suc n] @ drop (Suc n) pc"
    unfolding pcn using update_prefix [of n pc "\<lambda>d. pc ! d + producing W R I sts d"] n assms(1)
    by simp
  finally show ?case .
qed

lemma score_pCount_eq: "score_pCount W R I h sts = map (producing W R I sts) [0..<h]"
proof -
  have "fold (score_day W R I sts) [0..<h] (replicate h 0)
      = map (\<lambda>d. replicate h 0 ! d + producing W R I sts d) [0..<h] @ drop h (replicate h 0)"
    by (intro fold_score_day [where h = h]) simp_all
  also have "\<dots> = map (producing W R I sts) [0..<h]"
    by (simp cong: map_cong)
  finally show ?thesis by (simp only: score_pCount_def)
qed


text \<open>
  The matrix loop run on six days with \<open>W = 3\<close>, \<open>R = 2\<close>, \<open>I = 1\<close> and the start days
  \<open>0\<close>, \<open>0\<close>, \<open>2\<close>.
\<close>

lemma build_grid_example:
  "build_grid 3 2 1 6 [0, 0, 2] [''S1'', ''S2'', ''S3''] =
     ([[STATES_S, STATES_I, STATES_P, STATES_P, STATES_B, STATES_S],
       [STATES_S, STATES_I, STATES_P, STATES_P, STATES_B, STATES_S],
       [STATES_EMPTY, STATES_EMPTY, STATES_S, STATES_I, STATES_P, STATES_P]],
      [0, 0, 2, 2, 1, 1])"
  by code_simp

section \<open>The trimming loop\<close>

lemma trim_loop_none:
  "acc + int (length (filter (\<lambda>d. pc ! d = 2) ds)) < T \<Longrightarrow> trim_loop pc T ds acc e = e"
  by (induction ds arbitrary: acc) (auto simp: Let_def)

lemma trim_loop_some:
  "acc + int (length (filter (\<lambda>d. pc ! d = 2) xs)) < T \<Longrightarrow>
   T \<le> acc + int (length (filter (\<lambda>d. pc ! d = 2) (xs @ [d]))) \<Longrightarrow>
   trim_loop pc T (xs @ d # ys) acc e = int d"
  by (induction xs arbitrary: acc) (auto simp: Let_def)

lemma twos_mono: "m \<le> n \<Longrightarrow> twos pc m \<le> twos pc n"
proof (induction n)
  case 0
  then show ?case by simp
next
  case (Suc n)
  then show ?case by (cases "m = Suc n") (auto simp: twos_def)
qed

lemma twos_le: "twos pc n \<le> int n"
proof -
  have "length (filter (\<lambda>d. pc ! d = 2) [0..<n]) \<le> length [0..<n]" by (rule length_filter_le)
  then show ?thesis by (simp add: twos_def)
qed

lemma trim_loop_reached:
  assumes "d < h" and "twos pc d < T" and "T \<le> twos pc (Suc d)"
  shows "trim_loop pc T [0..<h] 0 e = int d"
proof -
  have "[0..<h] = [0..<d] @ [d..<h]"
    using upt_add_eq_append [of 0 d "h - d"] assms(1) by simp
  moreover have "[d..<h] = d # [Suc d..<h]"
    using assms(1) by (rule upt_conv_Cons)
  ultimately have "[0..<h] = [0..<d] @ d # [Suc d..<h]" by simp
  moreover have "trim_loop pc T ([0..<d] @ d # [Suc d..<h]) 0 e = int d"
    using assms(2,3) by (intro trim_loop_some) (simp_all add: twos_def)
  ultimately show ?thesis by simp
qed

lemma trim_loop_not_reached:
  assumes "twos pc h < T"
  shows "trim_loop pc T [0..<h] 0 e = e"
  using assms by (intro trim_loop_none) (simp add: twos_def)

lemma find_upt_None: "find P [0..<h] = None \<longleftrightarrow> (\<forall>d<h. \<not> P d)"
  by (auto simp: find_None_iff)

lemma find_upt_Some: "find P [0..<h] = Some d \<longleftrightarrow> d < h \<and> P d \<and> (\<forall>j<d. \<not> P j)"
  by (auto simp: find_Some_iff)

text \<open>The loop returns the first day at which the count reaches \<open>T\<close>, or the initial \<open>endDay\<close>.\<close>

lemma trim_loop_first_reached:
  assumes "0 < T"
  shows "trim_loop pc T [0..<h] 0 e = (case first_reached pc T h of Some d \<Rightarrow> int d | None \<Rightarrow> e)"
proof (cases "first_reached pc T h")
  case None
  then have a: "\<forall>d<h. twos pc (Suc d) < T"
    unfolding first_reached_def find_upt_None by (simp add: not_le)
  have "twos pc h < T"
  proof (cases h)
    case 0
    then show ?thesis using assms by (simp add: twos_def)
  next
    case (Suc k)
    then show ?thesis using a by simp
  qed
  then show ?thesis using None by (simp add: trim_loop_not_reached)
next
  case (Some d)
  then have d: "d < h" and r: "T \<le> twos pc (Suc d)" and f: "\<forall>j<d. twos pc (Suc j) < T"
    unfolding first_reached_def find_upt_Some by (simp_all add: not_le)
  have "twos pc d < T"
  proof (cases d)
    case 0
    then show ?thesis using assms by (simp add: twos_def)
  next
    case (Suc k)
    then show ?thesis using f by simp
  qed
  then show ?thesis using Some d r by (simp add: trim_loop_reached)
qed

text \<open>
  Two small runs of the trimming loop with \<open>totalPerforationDays = 2\<close>: the count reaches
  \<open>2\<close> on day \<open>3\<close>; over three days it does not, and \<open>endDay\<close> stays \<open>horizon - 1\<close>.
\<close>

lemma trim_loop_examples:
  "trim_loop [0, 2, 1, 2, 2] 2 [0..<5] 0 4 = 3"
  "first_reached [0, 2, 1, 2, 2] 2 5 = Some 3"
  "trim_loop [0, 2, 1] 2 [0..<3] 0 2 = 2"
  "first_reached [0, 2, 1] 2 3 = None"
  by code_simp+

section \<open>The schedule that is built\<close>

text \<open>\<open>buildSchedule\<close> on clamped values, with both matrix loops in closed form.\<close>

lemma buildSchedule_unfold:
  fixes p :: raw_params
  defines "W \<equiv> clampInt (raw_W p) 1 60"
    and "R \<equiv> clampInt (raw_R p) 2 60"
    and "I \<equiv> clampInt (raw_I p) 1 5"
    and "T \<equiv> clampInt (raw_totalPerforationDays p) 1 5000"
  defines "h \<equiv> T + (W + R + I) * 6 + 20"
  defines "best \<equiv> findBestOffsets W R I (nat h) 0"
  defines "sts \<equiv> [0, startS2 best, startS3 best]"
  defines "pc \<equiv> map (producing W R I sts) [0..<nat h]"
  defines "n \<equiv> trim_loop pc T [0..<nat h] 0 (h - 1) + 1"
  shows "buildSchedule p =
     \<lparr> params = \<lparr> param_W = W, param_R = R, param_I = I, param_totalPerforationDays = T \<rparr>,
       starts = sts,
       days = n,
       names = [''S1'', ''S2'', ''S3''],
       states = map (take (nat n))
                  (map (\<lambda>s. map (\<lambda>d. getSupervisorStateAtDay (int d) (sts ! s) W R I) [0..<nat h]) [0..<3]),
       pCount = take (nat n) pc,
       diagnostics = offsets.diagnostics best \<rparr>"
proof -
  have g: "build_grid W R I (nat h) sts [''S1'', ''S2'', ''S3''] =
     (map (\<lambda>s. map (\<lambda>d. getSupervisorStateAtDay (int d) (sts ! s) W R I) [0..<nat h]) [0..<3], pc)"
    unfolding pc_def by (rule build_grid_eq) simp
  show ?thesis
    unfolding buildSchedule_def Let_def
    unfolding W_def [symmetric] R_def [symmetric] I_def [symmetric] T_def [symmetric]
    unfolding h_def [symmetric]
    unfolding best_def [symmetric]
    unfolding sts_def [symmetric]
    unfolding g fst_conv snd_conv
    unfolding n_def [symmetric]
    by (rule refl)
qed


lemma clamped_ranges:
  "1 \<le> clampInt (raw_W p) 1 60" "2 \<le> clampInt (raw_R p) 2 60" "1 \<le> clampInt (raw_I p) 1 5"
  "1 \<le> clampInt (raw_totalPerforationDays p) 1 5000"
  using clampInt_range [of 1 60 "raw_W p"] clampInt_range [of 2 60 "raw_R p"]
    clampInt_range [of 1 5 "raw_I p"] clampInt_range [of 1 5000 "raw_totalPerforationDays p"]
  by simp_all

lemma buildSchedule_days:
  fixes p :: raw_params
  defines "W \<equiv> clampInt (raw_W p) 1 60"
    and "R \<equiv> clampInt (raw_R p) 2 60"
    and "I \<equiv> clampInt (raw_I p) 1 5"
    and "T \<equiv> clampInt (raw_totalPerforationDays p) 1 5000"
  defines "h \<equiv> T + (W + R + I) * 6 + 20"
  defines "pc \<equiv> map (producing W R I (starts (buildSchedule p))) [0..<nat h]"
  shows "days (buildSchedule p) = (case first_reached pc T (nat h) of Some d \<Rightarrow> int d + 1 | None \<Rightarrow> h)"
    and "1 \<le> days (buildSchedule p)" and "days (buildSchedule p) \<le> h"
proof -
  define best where "best = findBestOffsets W R I (nat h) 0"
  define sts where "sts = [0, startS2 best, startS3 best]"
  define pc' where "pc' = map (producing W R I sts) [0..<nat h]"
  define n where "n = trim_loop pc' T [0..<nat h] 0 (h - 1) + 1"
  have u: "buildSchedule p =
     \<lparr> params = \<lparr> param_W = W, param_R = R, param_I = I, param_totalPerforationDays = T \<rparr>,
       starts = sts, days = n, names = [''S1'', ''S2'', ''S3''],
       states = map (take (nat n))
                  (map (\<lambda>s. map (\<lambda>d. getSupervisorStateAtDay (int d) (sts ! s) W R I) [0..<nat h]) [0..<3]),
       pCount = take (nat n) pc',
       diagnostics = offsets.diagnostics best \<rparr>"
    unfolding W_def R_def I_def T_def h_def best_def sts_def pc'_def n_def
    by (rule buildSchedule_unfold)
  have pc: "pc = pc'" by (simp add: pc_def pc'_def u)
  have t: "1 \<le> T" and h45: "45 \<le> h"
    unfolding h_def W_def R_def I_def T_def
    using clamped_ranges [of p] by simp_all
  have n_eq: "n = (case first_reached pc' T (nat h) of Some d \<Rightarrow> int d + 1 | None \<Rightarrow> h)"
    unfolding n_def using t by (subst trim_loop_first_reached) (simp_all split: option.split)
  have n_rng: "1 \<le> n \<and> n \<le> h"
  proof (cases "first_reached pc' T (nat h)")
    case None
    then show ?thesis using n_eq h45 by simp
  next
    case (Some d)
    then have "d < nat h" unfolding first_reached_def find_upt_Some by simp
    then show ?thesis using n_eq Some by simp
  qed
  show "days (buildSchedule p) = (case first_reached pc T (nat h) of Some d \<Rightarrow> int d + 1 | None \<Rightarrow> h)"
    unfolding pc using n_eq by (simp add: u)
  show "1 \<le> days (buildSchedule p)" "days (buildSchedule p) \<le> h"
    using n_rng by (simp_all add: u)
qed

text \<open>
  Claim C4 (horizon and trimming of the builder). For every argument, with the clamped
  values, \<open>horizon = totalPerforationDays + (W + R + I) * 6 + 20\<close> and the full matrix and
  count vector over \<open>[0, horizon)\<close>: \<open>days\<close> is \<open>d + 1\<close> for the first day \<open>d\<close> at which
  the running count of days with \<open>pCount == 2\<close> reaches \<open>totalPerforationDays\<close>, and
  \<open>horizon\<close> if no day below the horizon reaches it; the rows and the count vector
  returned are the first \<open>days\<close> entries of the full ones, and taking \<open>horizon\<close> entries
  leaves the full ones as they are.
\<close>

theorem buildSchedule_trimming:
  "(let W = clampInt (raw_W p) 1 60;
        R = clampInt (raw_R p) 2 60;
        I = clampInt (raw_I p) 1 5;
        T = clampInt (raw_totalPerforationDays p) 1 5000;
        horizon = T + (W + R + I) * 6 + 20;
        sch = buildSchedule p;
        full = build_grid W R I (nat horizon) (starts sch) (names sch)
    in days sch = (case first_reached (snd full) T (nat horizon) of
                     Some d \<Rightarrow> int d + 1
                   | None \<Rightarrow> horizon)
       \<and> 1 \<le> days sch \<and> days sch \<le> horizon
       \<and> states sch = map (take (nat (days sch))) (fst full)
       \<and> pCount sch = take (nat (days sch)) (snd full)
       \<and> map length (fst full) = [nat horizon, nat horizon, nat horizon]
       \<and> length (snd full) = nat horizon
       \<and> map (take (nat horizon)) (fst full) = fst full
       \<and> take (nat horizon) (snd full) = snd full)"
proof -
  define W where "W = clampInt (raw_W p) 1 60"
  define R where "R = clampInt (raw_R p) 2 60"
  define I where "I = clampInt (raw_I p) 1 5"
  define T where "T = clampInt (raw_totalPerforationDays p) 1 5000"
  define h where "h = T + (W + R + I) * 6 + 20"
  define best where "best = findBestOffsets W R I (nat h) 0"
  define sts where "sts = [0, startS2 best, startS3 best]"
  define pc where "pc = map (producing W R I sts) [0..<nat h]"
  define grid where
    "grid = map (\<lambda>s. map (\<lambda>d. getSupervisorStateAtDay (int d) (sts ! s) W R I) [0..<nat h]) [0..<3]"
  define n where "n = trim_loop pc T [0..<nat h] 0 (h - 1) + 1"
  have u: "buildSchedule p =
     \<lparr> params = \<lparr> param_W = W, param_R = R, param_I = I, param_totalPerforationDays = T \<rparr>,
       starts = sts, days = n, names = [''S1'', ''S2'', ''S3''],
       states = map (take (nat n)) grid, pCount = take (nat n) pc,
       diagnostics = offsets.diagnostics best \<rparr>"
    unfolding W_def R_def I_def T_def h_def best_def sts_def pc_def grid_def n_def
    by (rule buildSchedule_unfold)
  have t: "1 \<le> T" and h45: "45 \<le> h"
    unfolding h_def W_def R_def I_def T_def
    using clamped_ranges [of p] by simp_all
  have full: "build_grid W R I (nat h) sts [''S1'', ''S2'', ''S3''] = (grid, pc)"
    unfolding pc_def grid_def by (rule build_grid_eq) simp
  have pcs: "map (producing W R I (starts (buildSchedule p))) [0..<nat h] = pc"
    by (simp add: u pc_def)
  have n_eq: "n = (case first_reached pc T (nat h) of Some d \<Rightarrow> int d + 1 | None \<Rightarrow> h)"
    using buildSchedule_days(1) [of p]
    unfolding W_def [symmetric] R_def [symmetric] I_def [symmetric] T_def [symmetric]
    unfolding h_def [symmetric] pcs by (simp add: u)
  have n_rng: "1 \<le> n \<and> n \<le> h"
    using buildSchedule_days(2,3) [of p]
    unfolding W_def [symmetric] R_def [symmetric] I_def [symmetric] T_def [symmetric]
    unfolding h_def [symmetric] by (simp add: u)
  have lens: "map length grid = [nat h, nat h, nat h]" "length pc = nat h"
    by (simp_all add: grid_def pc_def upt_3)
  have tk: "map (take (nat h)) grid = grid" "take (nat h) pc = pc"
    by (simp_all add: grid_def pc_def)
  have "days (buildSchedule p) = (case first_reached pc T (nat h) of Some d \<Rightarrow> int d + 1 | None \<Rightarrow> h)
       \<and> 1 \<le> days (buildSchedule p) \<and> days (buildSchedule p) \<le> h
       \<and> states (buildSchedule p) = map (take (nat (days (buildSchedule p)))) grid
       \<and> pCount (buildSchedule p) = take (nat (days (buildSchedule p))) pc
       \<and> map length grid = [nat h, nat h, nat h]
       \<and> length pc = nat h
       \<and> map (take (nat h)) grid = grid
       \<and> take (nat h) pc = pc"
    using n_eq n_rng lens tk by (simp add: u)
  moreover have "build_grid W R I (nat h) (starts (buildSchedule p)) (names (buildSchedule p)) = (grid, pc)"
    using full by (simp add: u)
  ultimately show ?thesis
    unfolding Let_def W_def [symmetric] R_def [symmetric] I_def [symmetric] T_def [symmetric]
    unfolding h_def [symmetric]
    by simp
qed


lemma buildSchedule_shape:
  fixes p :: raw_params
  defines "W \<equiv> clampInt (raw_W p) 1 60"
    and "R \<equiv> clampInt (raw_R p) 2 60"
    and "I \<equiv> clampInt (raw_I p) 1 5"
  defines "sch \<equiv> buildSchedule p"
  shows "1 \<le> days sch"
    and "states sch =
           map (\<lambda>s. map (\<lambda>d. getSupervisorStateAtDay (int d) (starts sch ! s) W R I) [0..<nat (days sch)]) [0..<3]"
    and "pCount sch = map (producing W R I (starts sch)) [0..<nat (days sch)]"
    and "starts sch ! 0 = 0"
proof -
  define T where "T = clampInt (raw_totalPerforationDays p) 1 5000"
  define h where "h = T + (W + R + I) * 6 + 20"
  define best where "best = findBestOffsets W R I (nat h) 0"
  define sts where "sts = [0, startS2 best, startS3 best]"
  define pc where "pc = map (producing W R I sts) [0..<nat h]"
  define n where "n = trim_loop pc T [0..<nat h] 0 (h - 1) + 1"
  have u: "sch =
     \<lparr> params = \<lparr> param_W = W, param_R = R, param_I = I, param_totalPerforationDays = T \<rparr>,
       starts = sts, days = n, names = [''S1'', ''S2'', ''S3''],
       states = map (take (nat n))
                  (map (\<lambda>s. map (\<lambda>d. getSupervisorStateAtDay (int d) (sts ! s) W R I) [0..<nat h]) [0..<3]),
       pCount = take (nat n) pc,
       diagnostics = offsets.diagnostics best \<rparr>"
    unfolding sch_def W_def R_def I_def T_def h_def best_def sts_def pc_def n_def
    by (rule buildSchedule_unfold)
  have rng: "1 \<le> days (buildSchedule p) \<and> days (buildSchedule p) \<le> h"
    using buildSchedule_days(2,3) [of p]
    unfolding W_def [symmetric] R_def [symmetric] I_def [symmetric] T_def [symmetric]
    unfolding h_def [symmetric] by blast
  then have n: "1 \<le> n" "n \<le> h" using u by (simp_all add: sch_def)
  then have nn: "nat n \<le> nat h" by simp
  show "1 \<le> days sch" using n u by simp
  show "starts sch ! 0 = 0" by (simp add: u sts_def)
  show "states sch =
           map (\<lambda>s. map (\<lambda>d. getSupervisorStateAtDay (int d) (starts sch ! s) W R I) [0..<nat (days sch)]) [0..<3]"
    using nn by (simp add: u take_map min_absorb2)
  show "pCount sch = map (producing W R I (starts sch)) [0..<nat (days sch)]"
    using nn by (simp add: u pc_def take_map min_absorb2)
qed


text \<open>
  Claim C9 (consistency of the build result). For every argument, every unit \<open>s\<close> of the
  three and every day \<open>d\<close> below \<open>days\<close>: the matrix has three rows of \<open>days\<close> entries and
  the count vector has \<open>days\<close> entries; \<open>states[s][d]\<close> is the state the generator gives
  for day \<open>d\<close>, the start day \<open>starts[s]\<close> and the clamped \<open>W\<close>, \<open>R\<close>, \<open>I\<close>; \<open>pCount[d]\<close> is
  the number of units whose state on day \<open>d\<close> is PRODUCING, and so lies between \<open>0\<close> and
  \<open>3\<close>.
\<close>

theorem buildSchedule_consistent:
  fixes p :: raw_params
  defines "W \<equiv> clampInt (raw_W p) 1 60"
    and "R \<equiv> clampInt (raw_R p) 2 60"
    and "I \<equiv> clampInt (raw_I p) 1 5"
  defines "sch \<equiv> buildSchedule p"
  assumes "s < 3" and "d < nat (days sch)"
  shows "length (states sch) = 3
       \<and> length (states sch ! s) = nat (days sch)
       \<and> length (pCount sch) = nat (days sch)
       \<and> states sch ! s ! d = getSupervisorStateAtDay (int d) (starts sch ! s) W R I
       \<and> pCount sch ! d = int (length (filter (\<lambda>u. states sch ! u ! d = STATES_P) [0..<3]))
       \<and> 0 \<le> pCount sch ! d \<and> pCount sch ! d \<le> 3"
proof -
  let ?st = "\<lambda>u d. getSupervisorStateAtDay (int d) (starts sch ! u) W R I"
  have g: "states sch = map (\<lambda>u. map (?st u) [0..<nat (days sch)]) [0..<3]"
    unfolding sch_def W_def R_def I_def by (rule buildSchedule_shape(2))
  have c: "pCount sch = map (producing W R I (starts sch)) [0..<nat (days sch)]"
    unfolding sch_def W_def R_def I_def by (rule buildSchedule_shape(3))
  have cell: "states sch ! u ! d = ?st u d" if "u < 3" for u
    using that assms(6) by (simp add: g)
  have "filter (\<lambda>u. states sch ! u ! d = STATES_P) [0..<3] = filter (\<lambda>u. ?st u d = STATES_P) [0..<3]"
    by (rule filter_cong [OF refl]) (simp add: cell)
  then have cnt: "pCount sch ! d = int (length (filter (\<lambda>u. states sch ! u ! d = STATES_P) [0..<3]))"
    using assms(6) by (simp add: c producing_def)
  have "pCount sch ! d = producing W R I (starts sch) d"
    using assms(6) by (simp add: c)
  then have b: "0 \<le> pCount sch ! d \<and> pCount sch ! d \<le> 3"
    using producing_bounds [of W R I "starts sch" d] by simp
  have l: "length (states sch) = 3" "length (states sch ! s) = nat (days sch)"
    "length (pCount sch) = nat (days sch)"
    using assms(5) by (simp_all add: c) (simp_all add: g)
  from l cell [OF assms(5)] cnt b show ?thesis by blast
qed

theorem buildSchedule_consistent_witness:
  "(0::nat) < 3
   \<and> 0 < nat (days (buildSchedule \<lparr> raw_W = NonFinite, raw_R = NonFinite, raw_I = NonFinite,
                                     raw_totalPerforationDays = NonFinite \<rparr>))
   \<and> states (buildSchedule \<lparr> raw_W = NonFinite, raw_R = NonFinite, raw_I = NonFinite,
                              raw_totalPerforationDays = NonFinite \<rparr>) ! 0 ! 0 = STATES_S
   \<and> 0 \<le> pCount (buildSchedule \<lparr> raw_W = NonFinite, raw_R = NonFinite, raw_I = NonFinite,
                                   raw_totalPerforationDays = NonFinite \<rparr>) ! 0
   \<and> pCount (buildSchedule \<lparr> raw_W = NonFinite, raw_R = NonFinite, raw_I = NonFinite,
                              raw_totalPerforationDays = NonFinite \<rparr>) ! 0 \<le> 3"
proof -
  let ?p = "\<lparr> raw_W = NonFinite, raw_R = NonFinite, raw_I = NonFinite,
              raw_totalPerforationDays = NonFinite \<rparr>"
  have d: "0 < nat (days (buildSchedule ?p))"
    using buildSchedule_shape(1) [of ?p] by simp
  have s0: "starts (buildSchedule ?p) ! 0 = 0"
    by (rule buildSchedule_shape(4))
  have "states (buildSchedule ?p) ! 0 ! 0
          = getSupervisorStateAtDay (int 0) (starts (buildSchedule ?p) ! 0)
              (clampInt (raw_W ?p) 1 60) (clampInt (raw_R ?p) 2 60) (clampInt (raw_I ?p) 1 5)
      \<and> 0 \<le> pCount (buildSchedule ?p) ! 0 \<and> pCount (buildSchedule ?p) ! 0 \<le> 3"
    using buildSchedule_consistent [of 0 0 ?p] d by simp
  moreover have "getSupervisorStateAtDay (int 0) (starts (buildSchedule ?p) ! 0)
              (clampInt (raw_W ?p) 1 60) (clampInt (raw_R ?p) 2 60) (clampInt (raw_I ?p) 1 5) = STATES_S"
    unfolding s0 by (simp add: getSupervisorStateAtDay_def)
  ultimately show ?thesis using d by simp
qed

section \<open>Perfect candidates\<close>

lemma fold_tally_day:
  "fold (tally_day pc fpd) ds acc =
     (fst acc + int (length (filter (\<lambda>d. pc ! d = 3) ds)),
      snd acc + int (length (filter (\<lambda>d. fpd \<noteq> - 1 \<and> int d \<ge> fpd \<and> pc ! d \<noteq> 2) ds)))"
  by (induction ds arbitrary: acc) (simp_all add: tally_day_def Let_def)

lemma findIndex_from_bounds:
  "k < length xs \<Longrightarrow> P (xs ! k) \<Longrightarrow> 0 \<le> i \<Longrightarrow>
     i \<le> findIndex_from P xs i \<and> findIndex_from P xs i \<le> i + int k"
proof (induction xs arbitrary: i k)
  case Nil
  then show ?case by simp
next
  case (Cons x xs)
  show ?case
  proof (cases "P x")
    case True
    then show ?thesis by simp
  next
    case False
    with Cons.prems obtain k' where k: "k = Suc k'" by (cases k) auto
    with Cons.prems have "k' < length xs" "P (xs ! k')" "0 \<le> i + 1" by simp_all
    from Cons.IH [OF this] False k show ?thesis by simp
  qed
qed

lemma findIndex_found:
  assumes "k < length xs" and "P (xs ! k)"
  shows "0 \<le> findIndex P xs \<and> findIndex P xs \<le> int k"
  using findIndex_from_bounds [of k xs P 0] assms by (simp add: findIndex_def)

text \<open>
  A candidate is perfect when no day has three units producing and, from the first day
  with a unit producing, every day of the horizon has exactly two.
\<close>

lemma scoreOffsets_perfect_iff:
  "isPerfect (scoreOffsets W R I h sts) \<longleftrightarrow>
     (\<forall>d<h. producing W R I sts d \<noteq> 3)
     \<and> (\<forall>d<h. firstPDay (scoreOffsets W R I h sts) \<noteq> - 1
             \<and> firstPDay (scoreOffsets W R I h sts) \<le> int d \<longrightarrow> producing W R I sts d = 2)"
  by (auto simp: scoreOffsets_def Let_def fold_tally_day score_pCount_eq filter_empty_conv)

lemma scoreOffsets_firstPDay:
  "firstPDay (scoreOffsets W R I h sts) = findIndex (\<lambda>x. 0 < x) (map (producing W R I sts) [0..<h])"
  by (simp add: scoreOffsets_def Let_def score_pCount_eq)

lemma perfect_from:
  assumes "isPerfect (scoreOffsets W R I h sts)" and "k < h" and "0 < producing W R I sts k"
    and "k \<le> d" and "d < h"
  shows "producing W R I sts d = 2"
proof -
  have "0 \<le> firstPDay (scoreOffsets W R I h sts) \<and> firstPDay (scoreOffsets W R I h sts) \<le> int k"
    unfolding scoreOffsets_firstPDay
    using assms(2,3) by (intro findIndex_found) simp_all
  then have "firstPDay (scoreOffsets W R I h sts) \<noteq> - 1 \<and> firstPDay (scoreOffsets W R I h sts) \<le> int d"
    using assms(4) by simp
  then show ?thesis using assms(1,5) unfolding scoreOffsets_perfect_iff by blast
qed


lemma producing_three:
  "producing W R I [s0, s1, s2] d =
     (if getSupervisorStateAtDay (int d) s0 W R I = STATES_P then 1 else 0)
   + (if getSupervisorStateAtDay (int d) s1 W R I = STATES_P then 1 else 0)
   + (if getSupervisorStateAtDay (int d) s2 W R I = STATES_P then 1 else 0)"
  by (simp add: producing_def upt_3)

text \<open>
  Relative to its start day, a unit produces for the first time on some day \<open>a\<close> and has a
  WINDDOWN day \<open>b\<close> after it, both within \<open>W + R + I + 1\<close> days.
\<close>

lemma segments_first_P_then_B:
  assumes "1 \<le> W" and "2 \<le> R" and "1 \<le> I"
  obtains a b where "0 \<le> a" and "a \<le> b" and "b \<le> W + R + I + 1"
    and "segments a W I (max 0 (W - I)) (max 0 (R - 2)) = STATES_P"
    and "\<forall>x<a. segments x W I (max 0 (W - I)) (max 0 (R - 2)) \<noteq> STATES_P"
    and "segments b W I (max 0 (W - I)) (max 0 (R - 2)) = STATES_B"
proof (cases "I < W")
  case True
  then have fpe: "max 0 (W - I) = W - I" by simp
  define rr where "rr = max 0 (R - 2)"
  show ?thesis
  proof (rule that [of "1 + I" "1 + I + (W - I)"])
    show "0 \<le> 1 + I" "1 + I \<le> 1 + I + (W - I)" "1 + I + (W - I) \<le> W + R + I + 1"
      using assms True by simp_all
    show "segments (1 + I) W I (max 0 (W - I)) (max 0 (R - 2)) = STATES_P"
      unfolding fpe using assms True by (intro segments_P) simp_all
    show "\<forall>x<1 + I. segments x W I (max 0 (W - I)) (max 0 (R - 2)) \<noteq> STATES_P"
      using assms by (simp add: segments_def)
    show "segments (1 + I + (W - I)) W I (max 0 (W - I)) (max 0 (R - 2)) = STATES_B"
      unfolding fpe using assms True by (intro segments_B) simp_all
  qed
next
  case False
  then have fp: "max 0 (W - I) = 0" by simp
  define rr where "rr = max 0 (R - 2)"
  have rr: "0 \<le> rr" and rre: "rr = R - 2" using assms by (simp_all add: rr_def)
  let ?a = "1 + I + 0 + 1 + rr + 1"
  have c: "segments x W I 0 rr = cycle_state W rr ((x - ?a) mod (W + 1 + rr + 1))"
    if "1 + I + 0 + 1 + rr < x" for x
    using assms rr that by (intro segments_cycle) simp_all
  have "segments ?a W I 0 rr = cycle_state W rr ((?a - ?a) mod (W + 1 + rr + 1))"
    by (rule c) simp
  then have 1: "segments ?a W I 0 rr = STATES_P"
    using assms by (simp add: cycle_state_def)
  have 2: "\<forall>x<?a. segments x W I 0 rr \<noteq> STATES_P"
    using assms rr by (simp add: segments_def)
  have "segments (?a + W) W I 0 rr = cycle_state W rr ((?a + W - ?a) mod (W + 1 + rr + 1))"
    using assms by (intro c) simp
  moreover have "(?a + W - ?a) mod (W + 1 + rr + 1) = W"
    using assms rr by simp
  ultimately have 3: "segments (?a + W) W I 0 rr = STATES_B"
    by (simp add: cycle_state_def)
  show ?thesis
  proof (rule that [of ?a "?a + W"])
    show "0 \<le> ?a" "?a \<le> ?a + W" "?a + W \<le> W + R + I + 1"
      using assms rre by simp_all
    show "segments ?a W I (max 0 (W - I)) (max 0 (R - 2)) = STATES_P"
      unfolding fp rr_def [symmetric] by (rule 1)
    show "\<forall>x<?a. segments x W I (max 0 (W - I)) (max 0 (R - 2)) \<noteq> STATES_P"
      unfolding fp rr_def [symmetric] by (rule 2)
    show "segments (?a + W) W I (max 0 (W - I)) (max 0 (R - 2)) = STATES_B"
      unfolding fp rr_def [symmetric] by (rule 3)
  qed
qed

text \<open>
  With unit 1 at day \<open>0\<close>, the other two at days from \<open>0\<close> to \<open>2\<^sup>5\<^sup>2\<close> and a horizon
  beyond \<open>W + R + I + 1\<close>, no candidate is perfect: on the first producing day of unit 1
  only units that start at day \<open>0\<close> produce, and two units that start together are in
  WINDDOWN together.
\<close>

lemma scoreOffsets_never_perfect:
  assumes w: "1 \<le> W" "W \<le> 60" and r: "2 \<le> R" "R \<le> 60" and i: "1 \<le> I" "I \<le> 60"
    and o2: "0 \<le> o2" "o2 \<le> 4503599627370496" and o3: "0 \<le> o3" "o3 \<le> 4503599627370496"
    and hz: "W + R + I + 1 < int h"
  shows "\<not> isPerfect (scoreOffsets W R I h [0, o2, o3])"
proof
  assume perfect: "isPerfect (scoreOffsets W R I h [0, o2, o3])"
  let ?seg = "\<lambda>x. segments x W I (max 0 (W - I)) (max 0 (R - 2))"
  from segments_first_P_then_B [OF w(1) r(1) i(1)] obtain a b where
    a0: "0 \<le> a" and ab: "a \<le> b" and bh: "b \<le> W + R + I + 1"
    and pa: "?seg a = STATES_P" and before: "\<forall>x<a. ?seg x \<noteq> STATES_P" and bb: "?seg b = STATES_B"
    by blast
  have b0: "0 \<le> b" using a0 ab by simp
  have sg: "getSupervisorStateAtDay t s W R I = ?seg (t - s)"
    if "0 \<le> s" "s \<le> 4503599627370496" "t \<le> b" for t s
    using w r i that bh by (intro getSupervisorStateAtDay_segments) simp_all
  have sa: "getSupervisorStateAtDay (int (nat a)) s W R I = ?seg (a - s)"
    if "0 \<le> s" "s \<le> 4503599627370496" for s
    using sg [OF that ab] a0 by simp
  have sb: "getSupervisorStateAtDay (int (nat b)) s W R I = ?seg (b - s)"
    if "0 \<le> s" "s \<le> 4503599627370496" for s
    using sg [OF that order_refl] b0 by simp
  have sa0: "getSupervisorStateAtDay (int (nat a)) 0 W R I = ?seg (a - 0)"
    by (rule sa) simp_all
  have sb0: "getSupervisorStateAtDay (int (nat b)) 0 W R I = ?seg (b - 0)"
    by (rule sb) simp_all
  have late: "?seg (a - s) \<noteq> STATES_P" if "0 < s" for s
    using before that by simp
  have cnt_a: "producing W R I [0, o2, o3] (nat a) =
      1 + (if o2 = 0 then 1 else 0) + (if o3 = 0 then 1 else 0)"
    unfolding producing_three sa0 sa [OF o2] sa [OF o3]
    using pa late [of o2] late [of o3] o2(1) o3(1) by auto
  have ka: "nat a < h" and kb: "nat b < h" and kab: "nat a \<le> nat b"
    using a0 ab bh hz by simp_all
  have pos: "0 < producing W R I [0, o2, o3] (nat a)" by (simp add: cnt_a)
  have two_a: "producing W R I [0, o2, o3] (nat a) = 2"
    using perfect ka pos order_refl ka by (rule perfect_from)
  have two_b: "producing W R I [0, o2, o3] (nat b) = 2"
    using perfect ka pos kab kb by (rule perfect_from)
  have one_zero: "o2 = 0 \<or> o3 = 0" using two_a cnt_a by (auto split: if_splits)
  have "producing W R I [0, o2, o3] (nat b) \<le> 1"
    unfolding producing_three sb0 sb [OF o2] sb [OF o3]
    using one_zero bb by auto
  with two_b show False by simp
qed

text \<open>So the diagnostics of a built schedule never report a perfect solution.\<close>

lemma buildSchedule_never_perfect: "\<not> isPerfect (diagnostics (buildSchedule p))"
proof -
  define W where "W = clampInt (raw_W p) 1 60"
  define R where "R = clampInt (raw_R p) 2 60"
  define I where "I = clampInt (raw_I p) 1 5"
  define T where "T = clampInt (raw_totalPerforationDays p) 1 5000"
  define h where "h = T + (W + R + I) * 6 + 20"
  have rg: "1 \<le> W" "2 \<le> R" "1 \<le> I" "1 \<le> T"
    unfolding W_def R_def I_def T_def by (rule clamped_ranges)+
  have up: "W \<le> 60" "R \<le> 60" "I \<le> 5"
    unfolding W_def R_def I_def
    using clampInt_range [of 1 60 "raw_W p"] clampInt_range [of 2 60 "raw_R p"]
      clampInt_range [of 1 5 "raw_I p"] by simp_all
  have m0: "0 \<le> maxOffset W R I (nat h)"
    using clamped_maxOffset [OF rg] unfolding h_def by simp
  have m1: "maxOffset W R I (nat h) \<le> 395"
    using up by (simp add: maxOffset_def)
  from findBestOffsets_in_range [OF m0, of 0] obtain c where
    f: "findBestOffsets W R I (nat h) 0 = candidate W R I (nat h) 0 c"
    and c: "0 \<le> fst c" "0 \<le> snd c"
    and cm: "fst c \<le> maxOffset W R I (nat h)" "snd c \<le> maxOffset W R I (nat h)" by blast
  have cu: "fst c \<le> 4503599627370496" "snd c \<le> 4503599627370496"
    using cm m1 by simp_all
  have d: "diagnostics (buildSchedule p) = offsets.diagnostics (findBestOffsets W R I (nat h) 0)"
    by (simp add: buildSchedule_def Let_def W_def R_def I_def T_def h_def)
  have "W + R + I + 1 < int (nat h)" using rg by (simp add: h_def)
  then have "\<not> isPerfect (scoreOffsets W R I (nat h) [0, fst c, snd c])"
    using rg(1-3) up c cu by (intro scoreOffsets_never_perfect) simp_all
  then show ?thesis by (simp add: d f candidate_sel)
qed

section \<open>Coverage of the built schedule\<close>

lemma twos_take: "n \<le> length pc \<Longrightarrow> twos (take n pc) n = twos pc n"
proof -
  assume "n \<le> length pc"
  have "filter (\<lambda>d. take n pc ! d = 2) [0..<n] = filter (\<lambda>d. pc ! d = 2) [0..<n]"
    by (rule filter_cong [OF refl]) simp
  then show ?thesis by (simp add: twos_def)
qed

lemma twos_Suc_le: "twos pc (Suc n) \<le> twos pc n + 1"
  by (simp add: twos_def)

text \<open>
  The coverage of a built schedule, whatever the diagnostics say: the number of days with
  \<open>pCount == 2\<close> in the trimmed result is exactly the clamped \<open>totalPerforationDays\<close> when
  the running count reaches it below the horizon, and is the count of the whole horizon,
  which is smaller, when it does not.
\<close>

lemma buildSchedule_coverage:
  fixes p :: raw_params
  defines "W \<equiv> clampInt (raw_W p) 1 60"
    and "R \<equiv> clampInt (raw_R p) 2 60"
    and "I \<equiv> clampInt (raw_I p) 1 5"
    and "T \<equiv> clampInt (raw_totalPerforationDays p) 1 5000"
  defines "h \<equiv> T + (W + R + I) * 6 + 20"
  defines "sch \<equiv> buildSchedule p"
  defines "pc \<equiv> map (producing W R I (starts sch)) [0..<nat h]"
  shows "twos (pCount sch) (nat (days sch)) =
           (case first_reached pc T (nat h) of Some d \<Rightarrow> T | None \<Rightarrow> twos pc (nat h))"
    and "first_reached pc T (nat h) = None \<longleftrightarrow> twos pc (nat h) < T"
proof -
  have t: "1 \<le> T" unfolding T_def by (rule clamped_ranges)
  have dy: "days sch = (case first_reached pc T (nat h) of Some d \<Rightarrow> int d + 1 | None \<Rightarrow> h)"
    and d1: "1 \<le> days sch" and dh: "days sch \<le> h"
    unfolding sch_def pc_def h_def W_def R_def I_def T_def
    by (rule buildSchedule_days)+
  have pcs: "pCount sch = map (producing W R I (starts sch)) [0..<nat (days sch)]"
    unfolding sch_def W_def R_def I_def by (rule buildSchedule_shape(3))
  have "pCount sch = take (nat (days sch)) pc"
    using dh by (simp add: pcs pc_def take_map min_absorb2)
  moreover have "nat (days sch) \<le> length pc" using dh by (simp add: pc_def)
  ultimately have tw: "twos (pCount sch) (nat (days sch)) = twos pc (nat (days sch))"
    by (simp add: twos_take)
  show none: "first_reached pc T (nat h) = None \<longleftrightarrow> twos pc (nat h) < T"
  proof
    assume "first_reached pc T (nat h) = None"
    then have a: "\<forall>d<nat h. twos pc (Suc d) < T"
      unfolding first_reached_def find_upt_None by (simp add: not_le)
    show "twos pc (nat h) < T"
    proof (cases "nat h")
      case 0
      then show ?thesis using t by (simp add: twos_def)
    next
      case (Suc k)
      then show ?thesis using a by simp
    qed
  next
    assume lt: "twos pc (nat h) < T"
    have "\<forall>d<nat h. \<not> T \<le> twos pc (Suc d)"
    proof (intro allI impI)
      fix d assume "d < nat h"
      then have "twos pc (Suc d) \<le> twos pc (nat h)" by (intro twos_mono) simp
      then show "\<not> T \<le> twos pc (Suc d)" using lt by simp
    qed
    then show "first_reached pc T (nat h) = None"
      unfolding first_reached_def find_upt_None .
  qed
  show "twos (pCount sch) (nat (days sch)) =
           (case first_reached pc T (nat h) of Some d \<Rightarrow> T | None \<Rightarrow> twos pc (nat h))"
  proof (cases "first_reached pc T (nat h)")
    case None
    then show ?thesis using tw dy by simp
  next
    case (Some d)
    then have r: "T \<le> twos pc (Suc d)" and f: "\<forall>j<d. twos pc (Suc j) < T"
      unfolding first_reached_def find_upt_Some by (simp_all add: not_le)
    have "twos pc d < T"
    proof (cases d)
      case 0
      then show ?thesis using t by (simp add: twos_def)
    next
      case (Suc k)
      then show ?thesis using f by simp
    qed
    then have "twos pc (Suc d) = T" using r twos_Suc_le [of pc d] by simp
    moreover have "nat (days sch) = Suc d" using dy Some by simp
    ultimately show ?thesis using tw Some by simp
  qed
qed

end
